theory Spec2Isabelle
  imports Main
begin

section \<open>Strings\<close>

text \<open>
  A JavaScript string is a sequence of UTF-16 code units. It is modelled as a \<^typ>\<open>string\<close>,
  whose characters are the code units 0 to 255 (ASCII and Latin-1): the patterns and the
  literals of the program are ASCII, and on this range white space, line terminators and
  case conversion are as ECMAScript defines them.
\<close>

definition isSpace :: "char \<Rightarrow> bool" where
  \<comment> \<open>\<open>\s\<close> and the characters removed by \<open>trim\<close>: TAB, LF, VT, FF, CR, SP, NBSP\<close>
  "isSpace ch = (ch \<in> set [CHR 0x09, CHR 0x0A, CHR 0x0B, CHR 0x0C, CHR 0x0D, CHR 0x20, CHR 0xA0])"

definition isLineTerminator :: "char \<Rightarrow> bool" where
  \<comment> \<open>the characters that \<open>.\<close> does not match\<close>
  "isLineTerminator ch = (ch = CHR 0x0A \<or> ch = CHR 0x0D)"

definition upperTable :: "(char \<times> char) list" where
  "upperTable = zip ''abcdefghijklmnopqrstuvwxyz'' ''ABCDEFGHIJKLMNOPQRSTUVWXYZ''"

definition latin1Upper :: "char list" where
  "latin1Upper =
    [CHR 0xC0, CHR 0xC1, CHR 0xC2, CHR 0xC3, CHR 0xC4, CHR 0xC5, CHR 0xC6, CHR 0xC7,
     CHR 0xC8, CHR 0xC9, CHR 0xCA, CHR 0xCB, CHR 0xCC, CHR 0xCD, CHR 0xCE, CHR 0xCF,
     CHR 0xD0, CHR 0xD1, CHR 0xD2, CHR 0xD3, CHR 0xD4, CHR 0xD5, CHR 0xD6,
     CHR 0xD8, CHR 0xD9, CHR 0xDA, CHR 0xDB, CHR 0xDC, CHR 0xDD, CHR 0xDE]"

definition latin1Lower :: "char list" where
  "latin1Lower =
    [CHR 0xE0, CHR 0xE1, CHR 0xE2, CHR 0xE3, CHR 0xE4, CHR 0xE5, CHR 0xE6, CHR 0xE7,
     CHR 0xE8, CHR 0xE9, CHR 0xEA, CHR 0xEB, CHR 0xEC, CHR 0xED, CHR 0xEE, CHR 0xEF,
     CHR 0xF0, CHR 0xF1, CHR 0xF2, CHR 0xF3, CHR 0xF4, CHR 0xF5, CHR 0xF6,
     CHR 0xF8, CHR 0xF9, CHR 0xFA, CHR 0xFB, CHR 0xFC, CHR 0xFD, CHR 0xFE]"

definition lowerTable :: "(char \<times> char) list" where
  "lowerTable = zip ''ABCDEFGHIJKLMNOPQRSTUVWXYZ'' ''abcdefghijklmnopqrstuvwxyz''
     @ zip latin1Upper latin1Lower"

definition toLowerChar :: "char \<Rightarrow> char" where
  "toLowerChar ch = (case map_of lowerTable ch of Some l \<Rightarrow> l | None \<Rightarrow> ch)"

definition toLowerCase :: "string \<Rightarrow> string" where
  "toLowerCase s = map toLowerChar s"

definition trim :: "string \<Rightarrow> string" where
  "trim s = rev (dropWhile isSpace (rev (dropWhile isSpace s)))"

definition startsWith :: "string \<Rightarrow> string \<Rightarrow> bool" where
  "startsWith s p = (take (length p) s = p)"

fun findSub :: "string \<Rightarrow> string \<Rightarrow> nat option" where
  "findSub p [] = (if p = [] then Some 0 else None)"
| "findSub p (x # xs) =
     (if startsWith (x # xs) p then Some 0 else map_option Suc (findSub p xs))"

definition includesStr :: "string \<Rightarrow> string \<Rightarrow> bool" where
  "includesStr s p = (findSub p s \<noteq> None)"

definition clampIndex :: "string \<Rightarrow> int \<Rightarrow> nat" where
  "clampIndex s i = min (nat (max 0 i)) (length s)"

definition indexOf :: "string \<Rightarrow> string \<Rightarrow> int \<Rightarrow> int" where
  \<comment> \<open>\<open>s.indexOf(p, pos)\<close>: the first index at or after \<open>pos\<close>, or -1\<close>
  "indexOf s p pos = (let k = clampIndex s pos in
     case findSub p (drop k s) of None \<Rightarrow> - 1 | Some j \<Rightarrow> int (k + j))"

definition substring :: "string \<Rightarrow> int \<Rightarrow> int \<Rightarrow> string" where
  \<comment> \<open>\<open>s.substring(a, b)\<close>: both ends clamped to the string, swapped when out of order\<close>
  "substring s a b = (let a' = clampIndex s a; b' = clampIndex s b
     in take (max a' b' - min a' b') (drop (min a' b') s))"

fun join :: "string \<Rightarrow> string list \<Rightarrow> string" where
  "join sep [] = []"
| "join sep [x] = x"
| "join sep (x # y # ys) = x @ sep @ join sep (y # ys)"

section \<open>Regular expressions\<close>

text \<open>
  The regular expressions of the program are kept as syntax trees and run by a backtracking
  matcher in continuation-passing style, after the matcher of the ECMAScript specification:
  a matcher takes the rest of the input, the captures so far and a continuation, and
  returns the first success in priority order. None of the patterns of the program has an
  assertion or a look-behind, so a match attempt depends on the input from its start position on.
\<close>

definition toUpperChar :: "char \<Rightarrow> char" where
  "toUpperChar ch = (case map_of upperTable ch of Some u \<Rightarrow> u | None \<Rightarrow> ch)"

definition canonicalize :: "bool \<Rightarrow> char \<Rightarrow> char" where
  \<comment> \<open>with the flag \<open>i\<close> characters are compared after upper-casing; a code unit above 127
      is never canonicalized to an ASCII character, and the patterns are ASCII\<close>
  "canonicalize ic ch = (if ic then toUpperChar ch else ch)"

fun litPrefix :: "bool \<Rightarrow> string \<Rightarrow> string \<Rightarrow> bool" where
  "litPrefix ic [] s = True"
| "litPrefix ic (p # ps) [] = False"
| "litPrefix ic (p # ps) (x # xs) =
     (canonicalize ic p = canonicalize ic x \<and> litPrefix ic ps xs)"

datatype regex =
    Lit string
  | Cls "char \<Rightarrow> bool"
  | Seq regex regex
  | Star bool regex
  | Plus bool regex
  | Opt bool regex
  | Group nat regex
  | Backref nat

text \<open>
  \<open>Lit\<close> is a run of pattern characters, \<open>Cls\<close> a character class, an escape such as
  \<open>\s\<close>, or the dot (none of the classes of the program contains a letter, so the flag
  \<open>i\<close> does not change them); the flag of \<open>Star\<close>, \<open>Plus\<close> and \<open>Opt\<close> says whether the
  quantifier is greedy.
\<close>

type_synonym caps = "nat \<rightharpoonup> string"

type_synonym mstate = "string \<times> caps"

fun rsize :: "regex \<Rightarrow> nat" where
  "rsize (Lit p) = 0"
| "rsize (Cls P) = 0"
| "rsize (Seq a b) = Suc (rsize a + rsize b)"
| "rsize (Star g a) = Suc (rsize a)"
| "rsize (Plus g a) = Suc (Suc (rsize a))"
| "rsize (Opt g a) = Suc (rsize a)"
| "rsize (Group n a) = Suc (rsize a)"
| "rsize (Backref n) = 0"

function matchK ::
  "bool \<Rightarrow> regex \<Rightarrow> string \<Rightarrow> caps \<Rightarrow> (string \<Rightarrow> caps \<Rightarrow> mstate option) \<Rightarrow> mstate option"
where
  "matchK ic (Lit p) s c k = (if litPrefix ic p s then k (drop (length p) s) c else None)"
| "matchK ic (Cls P) s c k =
     (case s of [] \<Rightarrow> None | x # xs \<Rightarrow> if P x then k xs c else None)"
| "matchK ic (Seq a b) s c k = matchK ic a s c (\<lambda>s' c'. matchK ic b s' c' k)"
| "matchK ic (Star g a) s c k =
     (if g
      then (case matchK ic a s c
                  (\<lambda>s' c'. if length s' < length s then matchK ic (Star g a) s' c' k else None) of
              Some r \<Rightarrow> Some r
            | None \<Rightarrow> k s c)
      else (case k s c of
              Some r \<Rightarrow> Some r
            | None \<Rightarrow> matchK ic a s c
                  (\<lambda>s' c'. if length s' < length s then matchK ic (Star g a) s' c' k else None)))"
| "matchK ic (Plus g a) s c k = matchK ic a s c (\<lambda>s' c'. matchK ic (Star g a) s' c' k)"
| "matchK ic (Opt g a) s c k =
     (if g
      then (case matchK ic a s c (\<lambda>s' c'. if length s' < length s then k s' c' else None) of
              Some r \<Rightarrow> Some r
            | None \<Rightarrow> k s c)
      else (case k s c of
              Some r \<Rightarrow> Some r
            | None \<Rightarrow> matchK ic a s c (\<lambda>s' c'. if length s' < length s then k s' c' else None)))"
| "matchK ic (Group n a) s c k =
     matchK ic a s c (\<lambda>s' c'. k s' (c'(n \<mapsto> take (length s - length s') s)))"
| "matchK ic (Backref n) s c k =
     (case c n of
        None \<Rightarrow> k s c
      | Some t \<Rightarrow> if litPrefix ic t s then k (drop (length t) s) c else None)"
  by pat_completeness auto
termination
  by (relation "measures [\<lambda>(ic, r, s, c, k). rsize r, \<lambda>(ic, r, s, c, k). length s]") auto

definition regexExec :: "bool \<Rightarrow> regex \<Rightarrow> string \<Rightarrow> (nat \<times> caps) option" where
  \<comment> \<open>a match attempt at the start of \<open>s\<close>: the length of the match and its captures\<close>
  "regexExec ic r s =
     (case matchK ic r s Map.empty (\<lambda>s' c'. Some (s', c')) of
        None \<Rightarrow> None
      | Some (s', c') \<Rightarrow> Some (length s - length s', c'))"

text \<open>
  \<open>s.replace(re, f)\<close> with the flag \<open>g\<close>: the input is scanned from the left; at a match
  the replacement is emitted and the scan goes on behind the match (one character further
  when the match is empty); a character at which nothing matches is copied.
\<close>

fun replaceAll :: "bool \<Rightarrow> regex \<Rightarrow> (string \<Rightarrow> caps \<Rightarrow> string) \<Rightarrow> string \<Rightarrow> string" where
  "replaceAll ic r f [] =
     (case regexExec ic r [] of None \<Rightarrow> [] | Some (n, c) \<Rightarrow> f [] c)"
| "replaceAll ic r f (x # xs) =
     (case regexExec ic r (x # xs) of
        None \<Rightarrow> x # replaceAll ic r f xs
      | Some (n, c) \<Rightarrow>
          f (take n (x # xs)) c
          @ (if n = 0 then x # replaceAll ic r f xs else replaceAll ic r f (drop (n - 1) xs)))"

text \<open>\<open>s.match(re)\<close> with the flag \<open>g\<close>, followed by \<open>|| []\<close>: the matched substrings in order.\<close>

fun matchAll :: "bool \<Rightarrow> regex \<Rightarrow> string \<Rightarrow> string list" where
  "matchAll ic r [] = (case regexExec ic r [] of None \<Rightarrow> [] | Some (n, c) \<Rightarrow> [[]])"
| "matchAll ic r (x # xs) =
     (case regexExec ic r (x # xs) of
        None \<Rightarrow> matchAll ic r xs
      | Some (n, c) \<Rightarrow>
          take n (x # xs)
          # (if n = 0 then matchAll ic r xs else matchAll ic r (drop (n - 1) xs)))"

definition capture :: "caps \<Rightarrow> nat \<Rightarrow> string" where
  \<comment> \<open>\<open>$n\<close> in a replacement: the capture, empty when the group did not take part\<close>
  "capture c n = (case c n of None \<Rightarrow> [] | Some t \<Rightarrow> t)"

section \<open>Data model\<close>

record author =
  authorName :: string
  authorUrl :: "string option"
  authorImage :: "string option"
  sameAs :: "string list option"

record article =
  slug :: string
  pageTitle :: string
  description :: string
  metaDescription :: string
  featuredImageUrl :: string
  featuredImageAlt :: string
  mainCategorySlug :: string
  mainCategoryName :: string
  subCategorySlug :: string
  subCategoryName :: string
  htmlBody :: string
  isPreformatted :: bool
  amazon_link :: "string option"
  datePublished :: string
  dateModified :: string
  featuredImageHint :: "string option"
  titleTag :: "string option"
  articleAuthor :: "author option"

record internalLink =
  linkId :: string
  linkUrl :: string
  linkText :: string

record blogData =
  articles :: "article list"
  internalLinks :: "internalLink list option"

text \<open>
  The sanitizer is the package \<open>sanitize-html\<close> and \<open>getKeywords\<close> comes from
  \<open>@/lib/seo-utils\<close>; neither is among the sources. They are parameters of the model: the
  sanitizer may throw, and its default lists are whatever the installed package has.
\<close>

type_synonym attribs = "(string \<times> string) list"

record sanitizeOptions =
  allowedTags :: "string list"
  allowedAttributes :: "(string \<times> string list) list"
  allowedIframeHostnames :: "string list"
  transformTags :: "(string \<times> (string \<Rightarrow> attribs \<Rightarrow> string \<times> attribs)) list"

datatype exn = Thrown string

record external =
  sanitizeHtml :: "string \<Rightarrow> sanitizeOptions \<Rightarrow> exn + string"
  defaults_allowedTags :: "string list"
  defaults_allowedAttributes :: "(string \<times> string list) list"
  getKeywords :: "bool \<Rightarrow> string list"

section \<open>Article lookup and metadata\<close>

definition truthy :: "string option \<Rightarrow> bool" where
  \<comment> \<open>an optional string in a condition: \<open>undefined\<close> and the empty string are false\<close>
  "truthy v = (case v of None \<Rightarrow> False | Some t \<Rightarrow> t \<noteq> [])"

definition orString :: "string \<Rightarrow> string \<Rightarrow> string" where
  \<comment> \<open>\<open>a || b\<close> on strings\<close>
  "orString a b = (if a \<noteq> [] then a else b)"

definition findArticle :: "blogData \<Rightarrow> string \<Rightarrow> article option" where
  "findArticle d requested =
     (let slug' = toLowerCase (trim requested)
      in find (\<lambda>item. toLowerCase (trim (slug item)) = slug') (articles d))"






section \<open>The transform chain\<close>

definition reTopPick :: regex where
  \<comment> \<open>\<open>/(Pet Gadget Insider's Top Pick)/g\<close>\<close>
  "reTopPick = Group 1 (Lit (''Pet Gadget Insider'' @ [CHR 0x27] @ ''s Top Pick''))"

definition addAsteriskToTopPick :: "string \<Rightarrow> string" where
  "addAsteriskToTopPick html = replaceAll False reTopPick (\<lambda>m c. capture c 1 @ ''*'') html"

definition isQuote :: "char \<Rightarrow> bool" where
  "isQuote ch = (ch = CHR 0x22 \<or> ch = CHR 0x27)"

definition isIdChar :: "char \<Rightarrow> bool" where
  "isIdChar ch = (\<not> (isQuote ch \<or> isSpace ch \<or> ch = CHR ''>''))"

definition reInternalLink :: regex where
  \<comment> \<open>\<open>/<InternalLink\s+id=(["']?)([^"'\s>]+)\1\s*\/>/gi\<close>\<close>
  "reInternalLink =
     Seq (Lit ''<InternalLink'')
    (Seq (Plus True (Cls isSpace))
    (Seq (Lit ''id='')
    (Seq (Group 1 (Opt True (Cls isQuote)))
    (Seq (Group 2 (Plus True (Cls isIdChar)))
    (Seq (Backref 1)
    (Seq (Star True (Cls isSpace))
         (Lit ''/>'')))))))"

definition linkMap :: "internalLink list \<Rightarrow> (string \<rightharpoonup> internalLink)" where
  \<comment> \<open>\<open>new Map(internalLinks.map((link) => [link.id.toLowerCase(), link]))\<close>: a later entry
      replaces an earlier one with the same key\<close>
  "linkMap links = foldl (\<lambda>m link. m(toLowerCase (linkId link) \<mapsto> link)) Map.empty links"

definition brokenLink :: "string \<Rightarrow> string" where
  \<open>brokenLink ident = ''<span class="broken-link">[Broken Link: '' @ ident @ '']</span>''\<close>

definition anchor :: "internalLink \<Rightarrow> string" where
  \<open>anchor link = ''<a href="'' @ linkUrl link @ ''" class="internal-link">'' @ linkText link @ ''</a>''\<close>

definition resolveLink :: "internalLink list \<Rightarrow> string \<Rightarrow> caps \<Rightarrow> string" where
  \<comment> \<open>the replacer callback \<open>(_, quoteChar, id) => ...\<close>\<close>
  "resolveLink links m c =
     (let ident = capture c 2;
          normalizedId = toLowerCase ident
      in case linkMap links normalizedId of
           None \<Rightarrow> brokenLink ident
         | Some link \<Rightarrow> anchor link)"

definition parseInternalLinks :: "blogData \<Rightarrow> string \<Rightarrow> string" where
  "parseInternalLinks d html =
     (let links = (case internalLinks d of None \<Rightarrow> [] | Some ls \<Rightarrow> ls)
      in replaceAll True reInternalLink (resolveLink links) html)"

definition reH2Open :: regex where
  \<comment> \<open>\<open>/<h2(\s+[^>]*)?>/gi\<close>\<close>
  "reH2Open =
     Seq (Lit ''<h2'')
    (Seq (Opt True (Group 1 (Seq (Plus True (Cls isSpace)) (Star True (Cls (\<lambda>ch. ch \<noteq> CHR ''>''))))))
         (Lit ''>''))"

definition addHeadingClass :: "string \<Rightarrow> string" where
  \<comment> \<open>the replacement \<open>'<h2$1 class="blog-heading">'\<close>\<close>
  \<open>addHeadingClass html =
     replaceAll True reH2Open (\<lambda>m c. ''<h2'' @ capture c 1 @ '' class="blog-heading">'') html\<close>

definition setProp :: "string \<Rightarrow> 'v \<Rightarrow> (string \<times> 'v) list \<Rightarrow> (string \<times> 'v) list" where
  \<comment> \<open>setting a property of an object: an existing key keeps its place, a new key goes last\<close>
  "setProp key v obj =
     (if key \<in> set (map fst obj) then map (\<lambda>(k', v'). if k' = key then (k', v) else (k', v')) obj
      else obj @ [(key, v)])"

definition transformAnchor :: "string \<Rightarrow> attribs \<Rightarrow> string \<times> attribs" where
  "transformAnchor tagName attrs =
     (if truthy (map_of attrs ''href'') \<and> startsWith (the (map_of attrs ''href'')) ''http''
      then (''a'', setProp ''target'' ''_blank''
                    (setProp ''rel'' ''noopener noreferrer nofollow'' attrs))
      else (tagName, attrs))"

definition addedTags :: "string list" where
  "addedTags = [''img'', ''svg'', ''path'', ''line'', ''rect'', ''circle'', ''g'', ''text'', ''tspan'']"

definition addedAttributes :: "(string \<times> string list) list" where
  "addedAttributes =
    [(''a'', [''href'', ''name'', ''target'', ''class'', ''rel'']),
     (''img'', [''src'', ''alt'', ''width'', ''height'', ''class'', ''style'']),
     (''iframe'', [''src'', ''width'', ''height'', ''frameborder'', ''allowfullscreen'']),
     (''div'', [''class'', ''style'']),
     (''span'', [''class'', ''style'']),
     (''h2'', [''class'', ''style'']),
     (''table'', [''class'', ''style'', ''border'']),
     (''thead'', [''class'', ''style'', ''border'']),
     (''tbody'', [''class'', ''style'', ''border'']),
     (''tr'', [''class'', ''style'', ''border'']),
     (''th'', [''class'', ''style'', ''border'']),
     (''td'', [''class'', ''style'', ''border'']),
     (''svg'', [''width'', ''height'', ''viewbox'', ''xmlns'', ''class'', ''style'']),
     (''path'', [''d'', ''fill'', ''stroke'', ''stroke-width'', ''class'', ''style'']),
     (''line'', [''x1'', ''y1'', ''x2'', ''y2'', ''stroke'', ''stroke-width'', ''class'', ''style'']),
     (''rect'', [''x'', ''y'', ''width'', ''height'', ''rx'', ''ry'', ''fill'', ''stroke'',
                 ''stroke-width'', ''class'', ''style'']),
     (''circle'', [''cx'', ''cy'', ''r'', ''fill'', ''stroke'', ''stroke-width'', ''class'', ''style'']),
     (''g'', [''transform'', ''class'', ''style'']),
     (''text'', [''x'', ''y'', ''text-anchor'', ''class'', ''style'']),
     (''tspan'', [''x'', ''y'', ''dx'', ''dy'', ''class'', ''style''])]"

definition sanitizerOptions :: "external \<Rightarrow> sanitizeOptions" where
  "sanitizerOptions ext =
     \<lparr> allowedTags = defaults_allowedTags ext @ addedTags,
       allowedAttributes =
         foldl (\<lambda>obj (key, v). setProp key v obj) (defaults_allowedAttributes ext) addedAttributes,
       allowedIframeHostnames = [''www.youtube.com'', ''player.vimeo.com''],
       transformTags = [(''a'', transformAnchor)] \<rparr>"

datatype content = Html string | ErrorBox string

definition renderArticleContent :: "external \<Rightarrow> blogData \<Rightarrow> article \<Rightarrow> content" where
  \<comment> \<open>the body of the \<open>try\<close>, and the \<open>catch\<close> around all of it\<close>
  "renderArticleContent ext d a =
     (let processedHtml = (if isPreformatted a then htmlBody a else parseInternalLinks d (htmlBody a));
          processedHtml = addAsteriskToTopPick processedHtml;
          processedHtml = addHeadingClass processedHtml
      in case sanitizeHtml ext processedHtml (sanitizerOptions ext) of
           Inr sanitizedHtml \<Rightarrow> Html sanitizedHtml
         | Inl err \<Rightarrow> ErrorBox ''Error loading content'')"

section \<open>Structured data\<close>

definition reHeading :: regex where
  \<comment> \<open>\<open>/<h2[^>]*>(.*?)<\/h2>/gi\<close>\<close>
  "reHeading =
     Seq (Lit ''<h2'')
    (Seq (Star True (Cls (\<lambda>ch. ch \<noteq> CHR ''>'')))
    (Seq (Lit ''>'')
    (Seq (Group 1 (Star False (Cls (\<lambda>ch. \<not> isLineTerminator ch))))
         (Lit ''</h2>''))))"

definition reTag :: regex where
  \<comment> \<open>\<open>/<[^>]+>/g\<close>\<close>
  "reTag = Seq (Lit ''<'') (Seq (Plus True (Cls (\<lambda>ch. ch \<noteq> CHR ''>''))) (Lit ''>''))"

definition reSpaces :: regex where
  \<comment> \<open>\<open>/\s+/g\<close>\<close>
  "reSpaces = Plus True (Cls isSpace)"

record faqItem =
  questionName :: string
  answerText :: string

text \<open>
  The loop over \<open>headingMatches\<close>: the head of the list is \<open>headingMatches[i]\<close>, the head of
  the rest is \<open>headingMatches[i + 1]\<close>, and the rest is empty in the last round.
\<close>

fun faqLoop :: "string \<Rightarrow> string list \<Rightarrow> faqItem list" where
  "faqLoop body [] = []"
| "faqLoop body (headingMatch # rest) =
     (let headingContent = trim (replaceAll False reTag (\<lambda>m c. []) headingMatch);
          startIndex = indexOf body headingMatch 0 + int (length headingMatch);
          endIndex = (case rest of
                        [] \<Rightarrow> int (length body)
                      | nextMatch # _ \<Rightarrow> indexOf body nextMatch startIndex);
          answerContent = substring body startIndex endIndex;
          answerContent = trim (replaceAll False reSpaces (\<lambda>m c. '' '')
                                  (replaceAll False reTag (\<lambda>m c. '' '') answerContent))
      in (if answerContent \<noteq> []
          then [\<lparr> questionName = headingContent, answerText = answerContent \<rparr>]
          else [])
         @ faqLoop body rest)"

definition generateFAQSchema :: "article \<Rightarrow> faqItem list option" where
  \<comment> \<open>the result is the \<open>mainEntity\<close> of the FAQPage object, or \<open>null\<close>\<close>
  "generateFAQSchema a =
     (if htmlBody a = [] then None
      else (let headingMatches = matchAll True reHeading (htmlBody a);
                faqItems = faqLoop (htmlBody a) headingMatches
            in if length faqItems > 0 then Some faqItems else None))"

record offer =
  offerUrl :: string
  priceCurrency :: string
  price :: string
  availability :: string
  sellerName :: string

record product =
  productName :: string
  productDescription :: string
  productImage :: string
  productKeywords :: string
  offers :: offer
  brandName :: string

definition generateProductSchema :: "external \<Rightarrow> article \<Rightarrow> product option" where
  "generateProductSchema ext a =
     (if \<not> truthy (amazon_link a) then None
      else (let articleKeywords = getKeywords ext (includesStr (mainCategorySlug a) ''dog'')
            in Some \<lparr> productName = pageTitle a,
                      productDescription = orString (metaDescription a) (description a),
                      productImage = featuredImageUrl a,
                      productKeywords = join '', '' articleKeywords,
                      offers = \<lparr> offerUrl = the (amazon_link a), priceCurrency = ''USD'',
                                 price = ''0'', availability = ''https://schema.org/InStock'',
                                 sellerName = ''Amazon'' \<rparr>,
                      brandName = ''Various Brands'' \<rparr>))"

section \<open>The page\<close>

record blogPosting =
  headline :: string
  postingDescription :: string
  imageUrl :: string
  imageCaption :: string
  postingPublished :: string
  postingModified :: string
  mainEntityId :: string
  articleSection :: string

text \<open>
  The page is the tree that \<open>BlogPostPage\<close> returns, one field for each region; dates are
  kept as the strings of the dataset (their display format depends on the locale).
  \<open>notFound()\<close> throws, so the lookup failure is the error result.
\<close>

record page =
  articleSchema :: blogPosting
  faqSchema :: "faqItem list option"
  productSchema :: "product option"
  breadcrumbSchema :: "(nat \<times> string \<times> string) list"
  breadcrumbLinks :: "(string \<times> string) list"
  currentPage :: string
  headerTitle :: string
  headerPublished :: string
  headerUpdated :: "string option"
  featuredImage :: "string \<times> string"
  descriptionBlock :: string
  contentRegion :: content
  affiliateBlock :: "string option"

datatype pageError = NotFound

definition site :: string where
  "site = ''https://petgadgetinsider.org''"

definition BlogPostPage :: "external \<Rightarrow> blogData \<Rightarrow> string \<Rightarrow> pageError + page" where
  "BlogPostPage ext d requested =
     (case findArticle d requested of
        None \<Rightarrow> Inl NotFound
      | Some a \<Rightarrow>
          Inr \<lparr> articleSchema =
                  \<lparr> headline = pageTitle a,
                    postingDescription = orString (metaDescription a) (description a),
                    imageUrl = featuredImageUrl a,
                    imageCaption = featuredImageAlt a,
                    postingPublished = datePublished a,
                    postingModified = orString (dateModified a) (datePublished a),
                    mainEntityId = site @ ''/blog/'' @ slug a,
                    articleSection = subCategoryName a \<rparr>,
                faqSchema = generateFAQSchema a,
                productSchema = generateProductSchema ext a,
                breadcrumbSchema =
                  [(1, ''Home'', site),
                   (2, ''Pet Supplies Reviews'', site @ ''/blog''),
                   (3, mainCategoryName a, site @ ''/blog/category/'' @ mainCategorySlug a),
                   (4, subCategoryName a,
                      site @ ''/blog/category/'' @ mainCategorySlug a @ ''/'' @ subCategorySlug a),
                   (5, pageTitle a, site @ ''/blog/'' @ slug a)],
                breadcrumbLinks =
                  [(''/'', ''Home''),
                   (''/blog'', ''Pet Supplies Reviews''),
                   (''/blog/category/'' @ mainCategorySlug a, mainCategoryName a),
                   (''/blog/category/'' @ mainCategorySlug a @ ''/'' @ subCategorySlug a,
                      subCategoryName a)],
                currentPage = pageTitle a,
                headerTitle = pageTitle a,
                headerPublished = datePublished a,
                headerUpdated = (if dateModified a \<noteq> [] then Some (dateModified a) else None),
                featuredImage = (featuredImageUrl a, featuredImageAlt a),
                descriptionBlock = description a,
                contentRegion = renderArticleContent ext d a,
                affiliateBlock = (if truthy (amazon_link a) then amazon_link a else None) \<rparr>)"

section \<open>The match relation\<close>

text \<open>
  A declarative reading of the matcher, used to reason about it: \<open>matches ic r st st'\<close> says
  that \<open>r\<close> can consume input from the state \<open>st\<close> (rest of the input and captures) and
  leave the state \<open>st'\<close>, whatever the priorities. Every result of \<open>matchK\<close> is one of
  these (lemma \<open>matchK_sound\<close> below).
\<close>

inductive matches :: "bool \<Rightarrow> regex \<Rightarrow> mstate \<Rightarrow> mstate \<Rightarrow> bool" for ic :: bool where
  mLit: "litPrefix ic p s \<Longrightarrow> matches ic (Lit p) (s, c) (drop (length p) s, c)"
| mCls: "P x \<Longrightarrow> matches ic (Cls P) (x # xs, c) (xs, c)"
| mSeq: "matches ic a st st1 \<Longrightarrow> matches ic b st1 st2 \<Longrightarrow> matches ic (Seq a b) st st2"
| mStar0: "matches ic (Star g a) st st"
| mStarS: "matches ic a st st1 \<Longrightarrow> matches ic (Star g a) st1 st2 \<Longrightarrow> matches ic (Star g a) st st2"
| mPlus: "matches ic a st st1 \<Longrightarrow> matches ic (Star g a) st1 st2 \<Longrightarrow> matches ic (Plus g a) st st2"
| mOpt0: "matches ic (Opt g a) st st"
| mOpt1: "matches ic a st st1 \<Longrightarrow> matches ic (Opt g a) st st1"
| mGroup: "matches ic a (s, c) (s', c') \<Longrightarrow>
     matches ic (Group n a) (s, c) (s', c'(n \<mapsto> take (length s - length s') s))"
| mBack0: "c n = None \<Longrightarrow> matches ic (Backref n) (s, c) (s, c)"
| mBack1: "c n = Some t \<Longrightarrow> litPrefix ic t s \<Longrightarrow>
     matches ic (Backref n) (s, c) (drop (length t) s, c)"

text \<open>Names for the parts of the patterns, and for the final continuation.\<close>

abbreviation linkTail :: regex where
  "linkTail \<equiv> Seq (Backref 1) (Seq (Star True (Cls isSpace)) (Lit ''/>''))"

abbreviation linkIdPart :: regex where
  "linkIdPart \<equiv> Seq (Group 2 (Plus True (Cls isIdChar))) linkTail"

abbreviation linkQuotePart :: regex where
  "linkQuotePart \<equiv> Seq (Group 1 (Opt True (Cls isQuote))) linkIdPart"

abbreviation accept :: "string \<Rightarrow> caps \<Rightarrow> mstate option" where
  "accept \<equiv> (\<lambda>s' c'. Some (s', c'))"

abbreviation h2Attrs :: regex where
  "h2Attrs \<equiv> Seq (Plus True (Cls isSpace)) (Star True (Cls (\<lambda>ch. ch \<noteq> CHR ''>'')))"

section \<open>Notions of the specification and example data\<close>

text \<open>
  The specification speaks of an href that begins with a URL scheme prefix. Its words are
  made precise by the scheme syntax of RFC 3986: a letter, then letters, digits, \<open>+\<close>,
  \<open>-\<close> or \<open>.\<close>, then a colon.
\<close>

definition isAlpha :: "char \<Rightarrow> bool" where
  "isAlpha ch = (ch \<in> set ''abcdefghijklmnopqrstuvwxyzABCDEFGHIJKLMNOPQRSTUVWXYZ'')"

definition isSchemeChar :: "char \<Rightarrow> bool" where
  "isSchemeChar ch = (isAlpha ch \<or> ch \<in> set ''0123456789+-.'')"

definition specBeginsWithUrlScheme :: "string \<Rightarrow> bool" where
  "specBeginsWithUrlScheme s =
     (case s of
        [] \<Rightarrow> False
      | x # xs \<Rightarrow> isAlpha x \<and>
          (case dropWhile isSchemeChar xs of [] \<Rightarrow> False | y # _ \<Rightarrow> y = CHR '':''))"

fun occurrences :: "string \<Rightarrow> string \<Rightarrow> nat" where
  \<comment> \<open>the number of positions of \<open>s\<close> at which \<open>p\<close> starts\<close>
  "occurrences p [] = 0"
| "occurrences p (x # xs) = (if startsWith (x # xs) p then 1 else 0) + occurrences p xs"

definition exampleExternal :: external where
  "exampleExternal =
     \<lparr> sanitizeHtml = (\<lambda>html opts. Inr html),
       defaults_allowedTags = [''p'', ''a'', ''h2''],
       defaults_allowedAttributes = [(''a'', [''href'', ''name'', ''target''])],
       getKeywords = (\<lambda>dog. if dog then [''dog'', ''pet''] else [''cat'', ''pet'']) \<rparr>"

definition failingExternal :: external where
  "failingExternal = exampleExternal \<lparr> sanitizeHtml := (\<lambda>html opts. Inl (Thrown ''parse error'')) \<rparr>"

definition exampleArticle :: "string \<Rightarrow> article" where
  "exampleArticle body =
     \<lparr> slug = ''Best-Feeder '', pageTitle = ''Best Feeder'', description = ''A feeder.'',
       metaDescription = [], featuredImageUrl = ''/images/f.png'', featuredImageAlt = ''feeder'',
       mainCategorySlug = ''dog-supplies'', mainCategoryName = ''Dog Supplies'',
       subCategorySlug = ''feeders'', subCategoryName = ''Feeders'',
       htmlBody = body, isPreformatted = False,
       amazon_link = Some ''https://amzn.to/abc'', datePublished = ''2024-01-01'',
       dateModified = [], featuredImageHint = None, titleTag = None, articleAuthor = None \<rparr>"

definition aboutLink :: internalLink where
  "aboutLink = \<lparr> linkId = ''About'', linkUrl = ''/about'', linkText = ''About Us'' \<rparr>"

definition exampleData :: blogData where
  "exampleData =
     \<lparr> articles = [exampleArticle ''<h2>Intro</h2><p>hello</p>''],
       internalLinks = Some [aboutLink] \<rparr>"

section \<open>Auxiliary facts\<close>

lemmas char_defs =
  isSpace_def isLineTerminator_def isQuote_def isIdChar_def canonicalize_def toUpperChar_def
  upperTable_def toLowerChar_def lowerTable_def latin1Upper_def latin1Lower_def toLowerCase_def

lemmas regex_eval =
  regexExec_def canonicalize_def toUpperChar_def upperTable_def isSpace_def isLineTerminator_def
  isQuote_def isIdChar_def capture_def

lemmas faq_unfold = faqLoop.simps Let_def indexOf_def substring_def list.case

lemmas faq_eval = regex_eval reTag_def reSpaces_def trim_def clampIndex_def startsWith_def

lemma exampleArticle_body: "htmlBody (exampleArticle b) = b"
  by (simp add: exampleArticle_def)


lemma map_of_replace_other:
  "k \<noteq> key \<Longrightarrow>
   map_of (map (\<lambda>(k', v'). if k' = key then (k', v) else (k', v')) obj) k = map_of obj k"
  by (induction obj) (simp_all split: prod.splits)

lemma map_of_replace_same:
  "key \<in> fst ` set obj \<Longrightarrow>
   map_of (map (\<lambda>(k', v'). if k' = key then (k', v) else (k', v')) obj) key = Some v"
  by (induction obj) (auto split: prod.splits)

lemma map_of_setProp:
  "map_of (setProp key v obj) k' = (if k' = key then Some v else map_of obj k')"
proof (cases "key \<in> fst ` set obj")
  case True
  then show ?thesis by (simp add: setProp_def map_of_replace_other map_of_replace_same)
next
  case False
  then have "map_of obj key = None" by (simp add: map_of_eq_None_iff)
  with False show ?thesis by (simp add: setProp_def map_add_def split: option.splits)
qed

section \<open>Soundness of the matcher\<close>

text \<open>
  Whatever \<open>matchK\<close> returns was accepted by the continuation at a state that the
  pattern can reach.
\<close>

lemma matchK_sound:
  "matchK ic r s c k = Some res \<Longrightarrow> \<exists>s' c'. matches ic r (s, c) (s', c') \<and> k s' c' = Some res"
proof (induction ic r s c k arbitrary: res rule: matchK.induct)
  case (1 ic p s c k)
  then show ?case by (auto split: if_splits intro: matches.intros)
next
  case (2 ic P s c k)
  then show ?case by (auto split: list.splits if_splits intro: matches.intros)
next
  case (3 ic a b s c k)
  from 3(3) have "matchK ic a s c (\<lambda>s' c'. matchK ic b s' c' k) = Some res" by simp
  from 3(2)[OF this] obtain s1 c1 where a: "matches ic a (s, c) (s1, c1)"
    and b: "matchK ic b s1 c1 k = Some res" by blast
  from 3(1)[OF b] obtain s2 c2 where "matches ic b (s1, c1) (s2, c2)" "k s2 c2 = Some res" by blast
  with a show ?case by (blast intro: mSeq)
next
  case (4 ic g a s c k)
  let ?K = "\<lambda>s' c'. if length s' < length s then matchK ic (Star g a) s' c' k else None"
  have iter: "\<exists>s' c'. matches ic (Star g a) (s, c) (s', c') \<and> k s' c' = Some res"
    if m: "matchK ic a s c ?K = Some res" and av: "g \<or> k s c = None"
  proof -
    have "\<exists>s1 c1. matches ic a (s, c) (s1, c1) \<and> ?K s1 c1 = Some res"
    proof (cases g)
      case True
      from 4(2)[OF True m] show ?thesis .
    next
      case False
      with av have "k s c = None" by simp
      from 4(4)[OF False this m] show ?thesis .
    qed
    then obtain s1 c1 where a: "matches ic a (s, c) (s1, c1)" and kk: "?K s1 c1 = Some res" by blast
    from kk have len: "length s1 < length s" and r: "matchK ic (Star g a) s1 c1 k = Some res"
      by (auto split: if_splits)
    have "\<exists>s' c'. matches ic (Star g a) (s1, c1) (s', c') \<and> k s' c' = Some res"
    proof (cases g)
      case True
      from 4(1)[OF True len r] show ?thesis .
    next
      case False
      with av have "k s c = None" by simp
      from 4(3)[OF False this len r] show ?thesis .
    qed
    with a show ?thesis by (blast intro: mStarS)
  qed
  have stop: "\<exists>s' c'. matches ic (Star g a) (s, c) (s', c') \<and> k s' c' = Some res"
    if "k s c = Some res"
    using that by (blast intro: mStar0)
  show ?case
  proof (cases g)
    case True
    then have gT: "g = True" by simp
    from "4.prems" iter stop show ?thesis
      unfolding gT
      by (cases "matchK ic a s c (\<lambda>s' c'. if length s' < length s then matchK ic (Star True a) s' c' k else None)") auto
  next
    case False
    then have gF: "g = False" by simp
    from "4.prems" iter stop show ?thesis
      unfolding gF
      by (cases "k s c") auto
  qed
next
  case (5 ic g a s c k)
  from 5(3) have "matchK ic a s c (\<lambda>s' c'. matchK ic (Star g a) s' c' k) = Some res" by simp
  from 5(2)[OF this] obtain s1 c1 where a: "matches ic a (s, c) (s1, c1)"
    and b: "matchK ic (Star g a) s1 c1 k = Some res" by blast
  from 5(1)[OF b] obtain s2 c2 where "matches ic (Star g a) (s1, c1) (s2, c2)" "k s2 c2 = Some res"
    by blast
  with a show ?case by (blast intro: mPlus)
next
  case (6 ic g a s c k)
  let ?K = "\<lambda>s' c'. if length s' < length s then k s' c' else None"
  have iter: "\<exists>s' c'. matches ic (Opt g a) (s, c) (s', c') \<and> k s' c' = Some res"
    if m: "matchK ic a s c ?K = Some res" and av: "g \<or> k s c = None"
  proof -
    have "\<exists>s1 c1. matches ic a (s, c) (s1, c1) \<and> ?K s1 c1 = Some res"
    proof (cases g)
      case True
      from 6(1)[OF True m] show ?thesis .
    next
      case False
      with av have "k s c = None" by simp
      from 6(2)[OF False this m] show ?thesis .
    qed
    then obtain s1 c1 where a: "matches ic a (s, c) (s1, c1)" and kk: "?K s1 c1 = Some res" by blast
    from kk have "k s1 c1 = Some res" by (auto split: if_splits)
    with a show ?thesis by (blast intro: mOpt1)
  qed
  have stop: "\<exists>s' c'. matches ic (Opt g a) (s, c) (s', c') \<and> k s' c' = Some res"
    if "k s c = Some res"
    using that by (blast intro: mOpt0)
  show ?case
  proof (cases g)
    case True
    then have gT: "g = True" by simp
    from "6.prems" iter stop show ?thesis
      unfolding gT
      by (cases "matchK ic a s c (\<lambda>s' c'. if length s' < length s then k s' c' else None)") auto
  next
    case False
    then have gF: "g = False" by simp
    from "6.prems" iter stop show ?thesis
      unfolding gF
      by (cases "k s c") auto
  qed
next
  case (7 ic n a s c k)
  from 7(2) have "matchK ic a s c (\<lambda>s' c'. k s' (c'(n \<mapsto> take (length s - length s') s))) = Some res"
    by simp
  from 7(1)[OF this] obtain s1 c1 where "matches ic a (s, c) (s1, c1)"
    "k s1 (c1(n \<mapsto> take (length s - length s1) s)) = Some res" by blast
  then show ?case by (blast intro: mGroup)
next
  case (8 ic n s c k)
  then show ?case by (auto split: option.splits if_splits intro: matches.intros)
qed

lemma regexExec_sound:
  "regexExec ic r s = Some (n, c) \<Longrightarrow>
   \<exists>s'. matches ic r (s, Map.empty) (s', c) \<and> n = length s - length s'"
proof -
  assume "regexExec ic r s = Some (n, c)"
  then obtain s0 where m: "matchK ic r s Map.empty (\<lambda>s' c'. Some (s', c')) = Some (s0, c)"
    and n: "n = length s - length s0"
    by (auto simp: regexExec_def split: option.splits)
  from matchK_sound [OF m] have "matches ic r (s, Map.empty) (s0, c)" by auto
  with n show ?thesis by blast
qed

lemma matches_suffix:
  "matches ic r st st' \<Longrightarrow> \<exists>n. fst st' = drop n (fst st)"
proof (induction rule: matches.induct)
  case (mCls P x xs c)
  show ?case by (rule exI [of _ "Suc 0"]) simp
next
  case (mSeq a st st1 b st2)
  then show ?case by (metis drop_drop)
next
  case (mStar0 g a st)
  show ?case by (rule exI [of _ 0]) simp
next
  case (mStarS a st st1 g st2)
  then show ?case by (metis drop_drop)
next
  case (mPlus a st st1 g st2)
  then show ?case by (metis drop_drop)
next
  case (mOpt0 g a st)
  show ?case by (rule exI [of _ 0]) simp
next
  case (mBack0 c n s)
  show ?case by (rule exI [of _ 0]) simp
qed auto

lemma matches_length: "matches ic r st st' \<Longrightarrow> length (fst st') \<le> length (fst st)"
  using matches_suffix [of ic r st st'] by auto

lemma matches_Star_Cls:
  "matches ic r st st' \<Longrightarrow> r = Star g (Cls P) \<Longrightarrow>
   \<exists>w. fst st = w @ fst st' \<and> (\<forall>x \<in> set w. P x) \<and> snd st' = snd st"
proof (induction rule: matches.induct)
  case (mStarS a st st1 g' st2)
  from mStarS.prems have a: "a = Cls P" and g: "g' = g" by simp_all
  from mStarS.hyps(1) a obtain x xs c where "st = (x # xs, c)" "st1 = (xs, c)" "P x"
    by (auto elim: matches.cases)
  moreover from mStarS.IH(2) mStarS.prems obtain w where
    "fst st1 = w @ fst st2" "\<forall>x \<in> set w. P x" "snd st2 = snd st1" by auto
  ultimately show ?case by (intro exI [of _ "x # w"]) simp
qed auto

section \<open>Matching a known text\<close>

text \<open>
  What the matcher returns on an input that begins with a text of the right shape: a
  greedy class repetition followed by a character outside the class consumes the whole run,
  and gives one character back when the continuation needs it.
\<close>

lemma litPrefix_map:
  "map (canonicalize ic) t = map (canonicalize ic) p \<Longrightarrow> litPrefix ic p (t @ r)"
proof (induction p arbitrary: t)
  case Nil
  show ?case by simp
next
  case (Cons a p)
  then obtain b t' where "t = b # t'" by (cases t) auto
  with Cons show ?case by simp
qed

lemma litPrefix_same: "litPrefix ic p (p @ r)"
  by (rule litPrefix_map) simp

lemma litPrefix_take:
  "litPrefix ic p s \<Longrightarrow>
   length p \<le> length s \<and> map (canonicalize ic) (take (length p) s) = map (canonicalize ic) p"
proof (induction p arbitrary: s)
  case Nil
  show ?case by simp
next
  case (Cons a p)
  then obtain b s' where "s = b # s'" by (cases s) auto
  with Cons show ?case by simp
qed

lemma matchK_Lit_hit:
  "map (canonicalize ic) t = map (canonicalize ic) p \<Longrightarrow>
   matchK ic (Lit p) (t @ r) c k = k r c"
proof -
  assume a: "map (canonicalize ic) t = map (canonicalize ic) p"
  then have "length t = length p" by (metis length_map)
  with a show ?thesis by (simp add: litPrefix_map)
qed

lemma star_cls_greedy:
  "\<forall>x \<in> set w. P x \<Longrightarrow> r = [] \<or> \<not> P (hd r) \<Longrightarrow> k r c = Some res \<Longrightarrow>
   matchK ic (Star True (Cls P)) (w @ r) c k = Some res"
proof (induction w)
  case Nil
  then show ?case by (cases r) auto
next
  case (Cons x w)
  then show ?case by simp
qed

lemma star_cls_back_one:
  "\<forall>x \<in> set w. P x \<Longrightarrow> P y \<Longrightarrow> r = [] \<or> \<not> P (hd r) \<Longrightarrow> k r c = None \<Longrightarrow>
   k (y # r) c = Some res \<Longrightarrow>
   matchK ic (Star True (Cls P)) (w @ y # r) c k = Some res"
proof (induction w)
  case Nil
  then show ?case by (cases r) auto
next
  case (Cons x w)
  then show ?case by simp
qed

lemma plus_cls_greedy:
  "w \<noteq> [] \<Longrightarrow> \<forall>x \<in> set w. P x \<Longrightarrow> r = [] \<or> \<not> P (hd r) \<Longrightarrow> k r c = Some res \<Longrightarrow>
   matchK ic (Plus True (Cls P)) (w @ r) c k = Some res"
  by (cases w) (simp_all add: star_cls_greedy del: matchK.simps(4))

lemma toUpperChar_cases: "toUpperChar x = x \<or> (x, toUpperChar x) \<in> set upperTable"
  by (auto simp: toUpperChar_def dest: map_of_SomeD split: option.splits)

lemma isSpace_upper: "isSpace x \<Longrightarrow> toUpperChar x = x"
  using toUpperChar_cases [of x] by (auto simp: isSpace_def upperTable_def)

lemma isQuote_upper: "isQuote x \<Longrightarrow> toUpperChar x = x"
  using toUpperChar_cases [of x] by (auto simp: isQuote_def upperTable_def)

lemma canonicalize_True: "canonicalize True = toUpperChar"
  by (rule ext) (simp add: canonicalize_def)

lemma slash_not_space: "\<not> isSpace CHR ''/''"
  by (simp add: isSpace_def)

lemma linkTail_hit:
  assumes "c 1 = Some q" and "\<forall>x \<in> set w. isSpace x"
  shows "matchK True linkTail (q @ w @ ''/>'' @ post) c accept = Some (post, c)"
proof -
  have lit: "matchK True (Lit ''/>'') (''/>'' @ post) c accept = Some (post, c)"
    by (rule trans [OF matchK_Lit_hit]) simp_all
  have "matchK True (Star True (Cls isSpace)) (w @ ''/>'' @ post) c
          (\<lambda>s' c'. matchK True (Lit ''/>'') s' c' accept) = Some (post, c)"
    using assms(2) lit by (intro star_cls_greedy) (simp_all add: slash_not_space)
  with assms(1) show ?thesis
    by (simp add: litPrefix_same del: matchK.simps(4))
qed

lemma linkTail_miss:
  assumes "c 1 = Some []"
  shows "matchK True linkTail (CHR ''>'' # post) c accept = None"
  using assms by (simp add: isSpace_def canonicalize_def toUpperChar_def upperTable_def)

lemma take_append_diff: "take (length (X @ r) - length r) (X @ r) = X"
  by simp

lemma linkIdPart_delim:
  assumes X: "X \<noteq> []" "\<forall>x \<in> set X. isIdChar x"
    and r: "r = q @ w @ ''/>'' @ post" "r \<noteq> []" "\<not> isIdChar (hd r)"
    and c: "c 1 = Some q" and w: "\<forall>x \<in> set w. isSpace x"
  shows "matchK True linkIdPart (X @ r) c accept = Some (post, c(2 \<mapsto> X))"
proof -
  let ?K = "\<lambda>s' c'. matchK True linkTail s' (c'(2 \<mapsto> take (length (X @ r) - length s') (X @ r))) accept"
  have k: "?K r c = Some (post, c(2 \<mapsto> X))"
    unfolding take_append_diff r(1) using c w by (intro linkTail_hit) simp_all
  have "matchK True (Plus True (Cls isIdChar)) (X @ r) c ?K = Some (post, c(2 \<mapsto> X))"
    using X r(3) k by (intro plus_cls_greedy) simp_all
  then show ?thesis by (simp del: matchK.simps(4,5))
qed

lemma linkIdPart_slash:
  assumes X: "X \<noteq> []" "\<forall>x \<in> set X. isIdChar x" and c: "c 1 = Some []"
  shows "matchK True linkIdPart (X @ ''/>'' @ post) c accept = Some (post, c(2 \<mapsto> X))"
proof -
  let ?s = "X @ ''/>'' @ post"
  let ?K = "\<lambda>s' c'. matchK True linkTail s' (c'(2 \<mapsto> take (length ?s - length s') ?s)) accept"
  obtain x X' where XX: "X = x # X'" using X(1) by (cases X) auto
  have miss: "?K (CHR ''>'' # post) c = None"
    using c by (intro linkTail_miss) simp
  have "take (length ?s - length (CHR ''/'' # CHR ''>'' # post)) ?s = X" by simp
  then have hit: "?K (CHR ''/'' # CHR ''>'' # post) c = Some (post, c(2 \<mapsto> X))"
    using c linkTail_hit [of "c(2 \<mapsto> X)" "[]" "[]" post] by simp
  have "matchK True (Star True (Cls isIdChar)) (X' @ CHR ''/'' # CHR ''>'' # post) c ?K
      = Some (post, c(2 \<mapsto> X))"
    using X(2) XX miss hit
    by (intro star_cls_back_one) (simp_all add: isIdChar_def isQuote_def isSpace_def)
  with XX X(2) show ?thesis by (simp del: matchK.simps(4))
qed

lemma matchK_Group_Opt_Cls_miss:
  "s \<noteq> [] \<Longrightarrow> \<not> P (hd s) \<Longrightarrow>
   matchK ic (Group n (Opt True (Cls P))) s c k = k s (c(n \<mapsto> []))"
  by (cases s) simp_all

lemma matchK_Group_Opt_Cls_hit:
  "P x \<Longrightarrow>
   matchK ic (Group n (Opt True (Cls P))) (x # xs) c k =
     (case k xs (c(n \<mapsto> [x])) of Some r \<Rightarrow> Some r | None \<Rightarrow> k (x # xs) (c(n \<mapsto> [])))"
  by (simp split: option.split)

lemma linkQuotePart_hit:
  assumes X: "X \<noteq> []" "\<forall>x \<in> set X. isIdChar x"
    and q: "q = [] \<or> (\<exists>ch. q = [ch] \<and> isQuote ch)"
    and w: "\<forall>x \<in> set w. isSpace x"
  shows "matchK True linkQuotePart (q @ X @ q @ w @ ''/>'' @ post) Map.empty accept
     = Some (post, [1 \<mapsto> q, 2 \<mapsto> X])"
proof (cases "q = []")
  case True
  obtain x X' where XX: "X = x # X'" using X(1) by (cases X) auto
  with X(2) have nq: "\<not> isQuote x" by (simp add: isIdChar_def)
  have id: "matchK True linkIdPart (X @ w @ ''/>'' @ post) [1 \<mapsto> []] accept
      = Some (post, [1 \<mapsto> [], 2 \<mapsto> X])"
  proof (cases "w = []")
    case True
    then show ?thesis using X linkIdPart_slash [of X "[1 \<mapsto> []]" post] by simp
  next
    case False
    then have "\<not> isIdChar (hd (w @ ''/>'' @ post))"
      using w by (cases w) (simp_all add: isIdChar_def)
    then show ?thesis
      using X w False linkIdPart_delim [of X "w @ ''/>'' @ post" "[]" w post "[1 \<mapsto> []]"]
      by simp
  qed
  have "matchK True linkQuotePart (X @ w @ ''/>'' @ post) Map.empty accept =
      matchK True (Group 1 (Opt True (Cls isQuote))) (X @ w @ ''/>'' @ post) Map.empty
        (\<lambda>s' c'. matchK True linkIdPart s' c' accept)"
    by (rule matchK.simps(3))
  also have "\<dots> = matchK True linkIdPart (X @ w @ ''/>'' @ post) [1 \<mapsto> []] accept"
    using XX nq by (intro matchK_Group_Opt_Cls_miss) simp_all
  finally show ?thesis using True id by simp
next
  case False
  with q obtain ch where ch: "q = [ch]" "isQuote ch" by auto
  then have "\<not> isIdChar (hd (q @ w @ ''/>'' @ post))" by (simp add: isIdChar_def)
  then have id: "matchK True linkIdPart (X @ q @ w @ ''/>'' @ post) [1 \<mapsto> q] accept
      = Some (post, [1 \<mapsto> q, 2 \<mapsto> X])"
    using X w ch linkIdPart_delim [of X "q @ w @ ''/>'' @ post" q w post "[1 \<mapsto> q]"]
    by simp
  have "matchK True linkQuotePart (ch # X @ q @ w @ ''/>'' @ post) Map.empty accept =
      matchK True (Group 1 (Opt True (Cls isQuote))) (ch # X @ q @ w @ ''/>'' @ post) Map.empty
        (\<lambda>s' c'. matchK True linkIdPart s' c' accept)"
    by (rule matchK.simps(3))
  also have "\<dots> = Some (post, [1 \<mapsto> q, 2 \<mapsto> X])"
    using id ch by (simp only: matchK_Group_Opt_Cls_hit) simp
  finally show ?thesis using ch by simp
qed

lemma upper_id_not_space:
  assumes "map toUpperChar attr = ''ID=''"
  shows "attr \<noteq> [] \<and> \<not> isSpace (hd attr)"
proof -
  from assms obtain a rest where a: "attr = a # rest" "toUpperChar a = CHR ''I''" by (cases attr) auto
  then show ?thesis using isSpace_upper [of a] by (auto simp: isSpace_def)
qed

lemma reInternalLink_hit:
  assumes tag: "map toUpperChar tag = ''<INTERNALLINK''"
    and ws1: "ws1 \<noteq> []" "\<forall>x \<in> set ws1. isSpace x"
    and attr: "map toUpperChar attr = ''ID=''"
    and q: "q = [] \<or> (\<exists>ch. q = [ch] \<and> isQuote ch)"
    and X: "X \<noteq> []" "\<forall>x \<in> set X. isIdChar x"
    and ws2: "\<forall>x \<in> set ws2. isSpace x"
  shows "regexExec True reInternalLink (tag @ ws1 @ attr @ q @ X @ q @ ws2 @ ''/>'' @ post)
     = Some (length (tag @ ws1 @ attr @ q @ X @ q @ ws2 @ ''/>''), [1 \<mapsto> q, 2 \<mapsto> X])"
proof -
  let ?r3 = "q @ X @ q @ ws2 @ ''/>'' @ post"
  let ?K3 = "\<lambda>s' c'. matchK True linkQuotePart s' c' accept"
  let ?K2 = "\<lambda>s' c'. matchK True (Lit ''id='') s' c' ?K3"
  have k3: "?K3 ?r3 Map.empty = Some (post, [1 \<mapsto> q, 2 \<mapsto> X])"
    using X q ws2 by (rule linkQuotePart_hit)
  have "map (canonicalize True) attr = map (canonicalize True) ''id=''"
    using attr by (simp add: canonicalize_True toUpperChar_def upperTable_def)
  then have k2: "?K2 (attr @ ?r3) Map.empty = Some (post, [1 \<mapsto> q, 2 \<mapsto> X])"
    using k3 by (simp only: matchK_Lit_hit)
  have "matchK True (Plus True (Cls isSpace)) (ws1 @ attr @ ?r3) Map.empty ?K2
      = Some (post, [1 \<mapsto> q, 2 \<mapsto> X])"
    using ws1 upper_id_not_space [OF attr] k2 by (intro plus_cls_greedy) simp_all
  moreover have "map (canonicalize True) tag = map (canonicalize True) ''<InternalLink''"
    using tag by (simp add: canonicalize_True toUpperChar_def upperTable_def)
  ultimately have "matchK True reInternalLink (tag @ ws1 @ attr @ ?r3) Map.empty accept
      = Some (post, [1 \<mapsto> q, 2 \<mapsto> X])"
    unfolding reInternalLink_def
    by (simp only: matchK.simps(3) matchK_Lit_hit)
  then show ?thesis by (simp add: regexExec_def)
qed

section \<open>Global replacement\<close>

text \<open>
  A match at the start of the input is replaced and the scan goes on behind it. When no
  match that begins in a prefix reaches beyond its end, and a match of the pattern does
  not depend on the text behind it, the prefix and the rest are rewritten each on its own.
\<close>

lemma replaceAll_at:
  assumes "regexExec ic r (m @ post) = Some (length m, c)" and "m \<noteq> []"
  shows "replaceAll ic r f (m @ post) = f m c @ replaceAll ic r f post"
proof -
  from assms(2) obtain x m' where m: "m = x # m'" by (cases m) auto
  with assms(1) show ?thesis by simp
qed

lemma replaceAll_local:
  assumes down: "\<And>s t n c. regexExec ic r (s @ t) = Some (n, c) \<Longrightarrow> n \<le> length s \<Longrightarrow>
        regexExec ic r s = Some (n, c)"
    and up: "\<And>s t n c. regexExec ic r s = Some (n, c) \<Longrightarrow> regexExec ic r (s @ t) = Some (n, c)"
    and empty: "regexExec ic r [] = None"
  shows "(\<And>k n c. k < length pre \<Longrightarrow> regexExec ic r (drop k pre @ rest) = Some (n, c) \<Longrightarrow>
       0 < n \<and> k + n \<le> length pre) \<Longrightarrow>
   replaceAll ic r f (pre @ rest) = replaceAll ic r f pre @ replaceAll ic r f rest"
proof (induction pre rule: length_induct)
  case (1 pre)
  note nc = "1.prems"
  show ?case
  proof (cases pre)
    case Nil
    then show ?thesis by (simp add: empty)
  next
    case (Cons x xs)
    show ?thesis
    proof (cases "regexExec ic r (x # xs @ rest)")
      case None
      have alone: "regexExec ic r (x # xs) = None"
      proof (cases "regexExec ic r (x # xs)")
        case (Some a)
        obtain n c where "a = (n, c)" by (cases a)
        with Some up [of "x # xs" n c rest] None show ?thesis by simp
      qed simp
      have "replaceAll ic r f (xs @ rest) = replaceAll ic r f xs @ replaceAll ic r f rest"
      proof (rule "1.IH" [rule_format])
        show "length xs < length pre" using Cons by simp
      next
        fix k n c
        assume "k < length xs" "regexExec ic r (drop k xs @ rest) = Some (n, c)"
        with nc [of "Suc k" n c] Cons show "0 < n \<and> k + n \<le> length xs" by simp
      qed
      with None alone Cons show ?thesis by simp
    next
      case (Some a)
      obtain n c where a: "a = (n, c)" by (cases a)
      from nc [of 0 n c] Some a Cons have n: "0 < n" "n \<le> length pre" by simp_all
      from down [of "x # xs" rest n c] Some a n Cons
      have alone: "regexExec ic r (x # xs) = Some (n, c)" by simp
      let ?ys = "drop (n - 1) xs"
      have dr: "drop (n - 1) (xs @ rest) = ?ys @ rest" using n Cons by simp
      have tk: "take n (x # xs @ rest) = take n (x # xs)" using n Cons by (cases n) simp_all
      have "replaceAll ic r f (?ys @ rest) = replaceAll ic r f ?ys @ replaceAll ic r f rest"
      proof (rule "1.IH" [rule_format])
        show "length ?ys < length pre" using Cons by simp
      next
        fix k m c'
        assume k: "k < length ?ys" and e: "regexExec ic r (drop k ?ys @ rest) = Some (m, c')"
        have d: "drop k ?ys = drop (k + n) pre" using n Cons by (cases n) (simp_all add: add.commute)
        have len: "length ?ys = length pre - n" using n Cons by simp
        with k have kn: "k + n < length pre" by simp
        from e d have "regexExec ic r (drop (k + n) pre @ rest) = Some (m, c')" by simp
        from nc [OF kn this] have "0 < m \<and> k + n + m \<le> length pre" .
        then have "0 < m" and "k + m \<le> length pre - n" by arith+
        with len show "0 < m \<and> k + m \<le> length ?ys" by simp
      qed
      with Some a n dr tk alone Cons show ?thesis by simp
    qed
  qed
qed

lemma replaceAll_skip:
  "(\<And>k. k < length m \<Longrightarrow> regexExec ic r (drop k m @ post) = None) \<Longrightarrow>
   replaceAll ic r f (m @ post) = m @ replaceAll ic r f post"
proof (induction m)
  case Nil
  show ?case by simp
next
  case (Cons x xs)
  from Cons.prems [of 0] have 0: "regexExec ic r (x # xs @ post) = None" by simp
  have "replaceAll ic r f (xs @ post) = xs @ replaceAll ic r f post"
  proof (rule Cons.IH)
    fix k
    assume "k < length xs"
    with Cons.prems [of "Suc k"] show "regexExec ic r (drop k xs @ post) = None" by simp
  qed
  with 0 show ?case by simp
qed

section \<open>The shape of an internal-link match\<close>

inductive_cases matches_SeqE: "matches ic (Seq a b) st st'"

inductive_cases matches_LitE: "matches ic (Lit p) st st'"

inductive_cases matches_ClsE: "matches ic (Cls P) st st'"

inductive_cases matches_PlusE: "matches ic (Plus g a) st st'"

inductive_cases matches_OptE: "matches ic (Opt g a) st st'"

inductive_cases matches_GroupE: "matches ic (Group n a) st st'"

inductive_cases matches_BackrefE: "matches ic (Backref n) st st'"

lemma matches_Lit:
  assumes "matches ic (Lit p) (s, c) (s', c')"
  shows "\<exists>t. s = t @ s' \<and> map (canonicalize ic) t = map (canonicalize ic) p \<and> c' = c"
proof -
  from assms have l: "litPrefix ic p s" and s': "s' = drop (length p) s" and c: "c' = c"
    by (auto elim: matches_LitE)
  from litPrefix_take [OF l] s' have
    "s = take (length p) s @ s'" "map (canonicalize ic) (take (length p) s) = map (canonicalize ic) p"
    by simp_all
  with c show ?thesis by blast
qed

lemma matches_Star:
  assumes "matches ic (Star g (Cls P)) (s, c) (s', c')"
  shows "\<exists>w. s = w @ s' \<and> (\<forall>x \<in> set w. P x) \<and> c' = c"
  using matches_Star_Cls [OF assms refl] by auto

lemma matches_Plus:
  assumes "matches ic (Plus g (Cls P)) (s, c) (s', c')"
  shows "\<exists>w. w \<noteq> [] \<and> s = w @ s' \<and> (\<forall>x \<in> set w. P x) \<and> c' = c"
proof -
  from assms obtain st1 where a: "matches ic (Cls P) (s, c) st1"
    and b: "matches ic (Star g (Cls P)) st1 (s', c')"
    by (auto elim: matches_PlusE)
  from a obtain x xs where x: "s = x # xs" "P x" "st1 = (xs, c)" by (auto elim: matches_ClsE)
  from b x matches_Star [of ic g P xs c s' c'] obtain w where
    "xs = w @ s'" "\<forall>x \<in> set w. P x" "c' = c" by auto
  with x show ?thesis by (intro exI [of _ "x # w"]) simp
qed

lemma matches_Opt:
  assumes "matches ic (Opt g (Cls P)) (s, c) (s', c')"
  shows "\<exists>w. s = w @ s' \<and> (\<forall>x \<in> set w. P x) \<and> length w \<le> 1 \<and> c' = c"
proof -
  from assms have "(s', c') = (s, c) \<or> matches ic (Cls P) (s, c) (s', c')"
    by (auto elim: matches_OptE)
  then show ?thesis
  proof
    assume "(s', c') = (s, c)"
    then show ?thesis by (intro exI [of _ "[]"]) simp
  next
    assume "matches ic (Cls P) (s, c) (s', c')"
    then obtain x where "s = x # s'" "P x" "c' = c" by (auto elim: matches_ClsE)
    then show ?thesis by (intro exI [of _ "[x]"]) simp
  qed
qed

lemma matches_Backref:
  assumes "matches ic (Backref n) (s, c) (s', c')"
  shows "\<exists>t. s = t @ s' \<and> c' = c \<and>
     (case c n of None \<Rightarrow> t = [] | Some q \<Rightarrow> map (canonicalize ic) t = map (canonicalize ic) q)"
proof -
  from assms consider "c n = None" "s' = s" "c' = c"
    | q where "c n = Some q" "litPrefix ic q s" "s' = drop (length q) s" "c' = c"
    by (auto elim: matches_BackrefE)
  then show ?thesis
  proof cases
    case 1
    then show ?thesis by (intro exI [of _ "[]"]) simp
  next
    case 2
    from litPrefix_take [OF 2(2)] 2 show ?thesis
      by (intro exI [of _ "take (length q) s"]) simp
  qed
qed

lemma toUpperChar_nonletter:
  "toUpperChar y = ch \<Longrightarrow> ch \<notin> set ''ABCDEFGHIJKLMNOPQRSTUVWXYZ'' \<Longrightarrow> y = ch"
  using toUpperChar_cases [of y] by (auto simp: upperTable_def dest: set_zip_rightD)

lemma upper_quote: "isQuote ch \<Longrightarrow> toUpperChar y = toUpperChar ch \<Longrightarrow> y = ch"
  using toUpperChar_nonletter [of y ch] by (auto simp: isQuote_upper isQuote_def)

lemma map_upper_quotes:
  "\<forall>x \<in> set q. isQuote x \<Longrightarrow> map toUpperChar t = map toUpperChar q \<Longrightarrow> t = q"
proof (induction q arbitrary: t)
  case Nil
  then show ?case by simp
next
  case (Cons a q)
  then obtain b t' where "t = b # t'" by (cases t) auto
  with Cons upper_quote [of a b] show ?case by auto
qed

lemma map_upper_slash_gt: "map toUpperChar t = map toUpperChar ''/>'' \<Longrightarrow> t = ''/>''"
proof -
  assume a: "map toUpperChar t = map toUpperChar ''/>''"
  then obtain x y where t: "t = [x, y]" by (cases t; cases "tl t") auto
  with a have "toUpperChar x = CHR ''/''" "toUpperChar y = CHR ''>''"
    by (simp_all add: toUpperChar_def upperTable_def)
  then have "x = CHR ''/''" "y = CHR ''>''" by (auto dest!: toUpperChar_nonletter)
  with t show ?thesis by simp
qed

lemma matches_Seq_iff:
  "matches ic (Seq a b) st st' = (\<exists>st1. matches ic a st st1 \<and> matches ic b st1 st')"
  by (blast elim: matches_SeqE intro: mSeq)

lemma reInternalLink_shape:
  assumes "matches True reInternalLink (s, Map.empty) (s', c)"
  obtains tag ws1 attr q X ws2 where
    "s = tag @ ws1 @ attr @ q @ X @ q @ ws2 @ ''/>'' @ s'"
    "map toUpperChar tag = ''<INTERNALLINK''"
    "ws1 \<noteq> []" "\<forall>x \<in> set ws1. isSpace x"
    "map toUpperChar attr = ''ID=''"
    "\<forall>x \<in> set q. isQuote x"
    "X \<noteq> []" "\<forall>x \<in> set X. isIdChar x"
    "\<forall>x \<in> set ws2. isSpace x"
    "c = [1 \<mapsto> q, 2 \<mapsto> X]"
    "length q \<le> 1"
proof -
  from assms [unfolded reInternalLink_def matches_Seq_iff] obtain st1 st2 st3 st4 st5 st6 st7 where
    m1: "matches True (Lit ''<InternalLink'') (s, Map.empty) st1" and
    m2: "matches True (Plus True (Cls isSpace)) st1 st2" and
    m3: "matches True (Lit ''id='') st2 st3" and
    m4: "matches True (Group 1 (Opt True (Cls isQuote))) st3 st4" and
    m5: "matches True (Group 2 (Plus True (Cls isIdChar))) st4 st5" and
    m6: "matches True (Backref 1) st5 st6" and
    m7: "matches True (Star True (Cls isSpace)) st6 st7" and
    m8: "matches True (Lit ''/>'') st7 (s', c)"
    by blast
  obtain s1 c1 where st1: "st1 = (s1, c1)" by (cases st1)
  obtain s2 c2 where st2: "st2 = (s2, c2)" by (cases st2)
  obtain s3 c3 where st3: "st3 = (s3, c3)" by (cases st3)
  obtain s5 c5 where st5: "st5 = (s5, c5)" by (cases st5)
  obtain s6 c6 where st6: "st6 = (s6, c6)" by (cases st6)
  obtain s7 c7 where st7: "st7 = (s7, c7)" by (cases st7)
  from m1 st1 matches_Lit obtain tag where
    tag: "s = tag @ s1" "map (canonicalize True) tag = map (canonicalize True) ''<InternalLink''"
      "c1 = Map.empty" by blast
  from m2 st1 st2 matches_Plus obtain ws1 where
    ws1: "ws1 \<noteq> []" "s1 = ws1 @ s2" "\<forall>x \<in> set ws1. isSpace x" "c2 = c1" by blast
  from m3 st2 st3 matches_Lit obtain attr where
    attr: "s2 = attr @ s3" "map (canonicalize True) attr = map (canonicalize True) ''id=''"
      "c3 = c2" by blast
  from m4 st3 obtain s4 c4 where
    g1: "matches True (Opt True (Cls isQuote)) (s3, c3) (s4, c4)"
      "st4 = (s4, c4(1 \<mapsto> take (length s3 - length s4) s3))"
    by (auto elim: matches_GroupE)
  from g1(1) matches_Opt obtain q where
    q: "s3 = q @ s4" "\<forall>x \<in> set q. isQuote x" "c4 = c3" "length q \<le> 1" by blast
  from m5 g1(2) st5 obtain c5' where
    g2: "matches True (Plus True (Cls isIdChar)) (s4, c4(1 \<mapsto> take (length s3 - length s4) s3)) (s5, c5')"
      "c5 = c5'(2 \<mapsto> take (length s4 - length s5) s4)"
    by (auto elim: matches_GroupE)
  from g2(1) matches_Plus obtain X where
    X: "X \<noteq> []" "s4 = X @ s5" "\<forall>x \<in> set X. isIdChar x"
      "c5' = c4(1 \<mapsto> take (length s3 - length s4) s3)" by blast
  have c5: "c5 = [1 \<mapsto> q, 2 \<mapsto> X]"
    using g2(2) X q tag ws1 attr by simp
  from m6 st5 st6 matches_Backref obtain q' where
    q': "s5 = q' @ s6" "c6 = c5"
      "case c5 1 of None \<Rightarrow> q' = [] | Some t \<Rightarrow> map (canonicalize True) q' = map (canonicalize True) t"
    by blast
  from q'(3) c5 q(2) have qq: "q' = q"
    by (simp add: canonicalize_True map_upper_quotes)
  from m7 st6 st7 matches_Star obtain ws2 where
    ws2: "s6 = ws2 @ s7" "\<forall>x \<in> set ws2. isSpace x" "c7 = c6" by blast
  from m8 st7 matches_Lit obtain e where
    e: "s7 = e @ s'" "map (canonicalize True) e = map (canonicalize True) ''/>''" "c = c7" by blast
  from e(2) have e': "e = ''/>''" by (simp only: canonicalize_True map_upper_slash_gt)
  have f1: "s = tag @ ws1 @ attr @ q @ X @ q @ ws2 @ ''/>'' @ s'"
    using tag(1) ws1(2) attr(1) q(1) X(2) q'(1) qq ws2(1) e(1) e' by simp
  have f2: "map toUpperChar tag = ''<INTERNALLINK''"
    using tag(2) by (simp add: canonicalize_True toUpperChar_def upperTable_def)
  have f3: "map toUpperChar attr = ''ID=''"
    using attr(2) by (simp add: canonicalize_True toUpperChar_def upperTable_def)
  have f4: "c = [1 \<mapsto> q, 2 \<mapsto> X]" using e(3) ws2(3) q'(2) c5 by simp
  show thesis
    by (rule that [OF f1 f2 ws1(1,3) f3 q(2) X(1,3) ws2(2) f4 q(4)])
qed

lemma nonletter_upper:
  "x \<notin> set ''abcdefghijklmnopqrstuvwxyz'' \<Longrightarrow> toUpperChar x = x"
  using toUpperChar_cases [of x] by (auto simp: upperTable_def dest: set_zip_leftD)

lemma special_chars:
  "\<forall>y \<in> set [CHR 0x09, CHR 0x0A, CHR 0x0B, CHR 0x0C, CHR 0x0D, CHR 0x20, CHR 0xA0,
               CHR 0x22, CHR 0x27, CHR ''/'', CHR ''<'', CHR ''>''].
     y \<notin> set ''abcdefghijklmnopqrstuvwxyz'' \<and> y \<notin> set ''ABCDEFGHIJKLMNOPQRSTUVWXYZ''"
  by simp

lemma letter_props:
  assumes "toUpperChar x \<in> set ''ABCDEFGHIJKLMNOPQRSTUVWXYZ''"
  shows "\<not> isSpace x \<and> \<not> isQuote x \<and> x \<noteq> CHR ''/'' \<and> x \<noteq> CHR ''<'' \<and> x \<noteq> CHR ''>''"
proof (rule ccontr)
  assume "\<not> ?thesis"
  then have "x \<in> set [CHR 0x09, CHR 0x0A, CHR 0x0B, CHR 0x0C, CHR 0x0D, CHR 0x20, CHR 0xA0,
               CHR 0x22, CHR 0x27, CHR ''/'', CHR ''<'', CHR ''>'']"
    by (auto simp: isSpace_def isQuote_def)
  with special_chars have x: "x \<notin> set ''abcdefghijklmnopqrstuvwxyz''"
    "x \<notin> set ''ABCDEFGHIJKLMNOPQRSTUVWXYZ''" by blast+
  from nonletter_upper [OF x(1)] assms x(2) show False by simp
qed

lemma upper_tag:
  assumes "map toUpperChar tag = ''<INTERNALLINK''"
  shows "\<exists>L. tag = CHR ''<'' # L \<and> (\<forall>x \<in> set L. toUpperChar x \<in> set ''ABCDEFGHIJKLMNOPQRSTUVWXYZ'')"
proof -
  from assms obtain t0 L where t: "tag = t0 # L" "toUpperChar t0 = CHR ''<''"
    "map toUpperChar L = ''INTERNALLINK''" by (cases tag) auto
  from t(2) have "t0 = CHR ''<''" by (auto dest!: toUpperChar_nonletter)
  moreover have "toUpperChar x \<in> set ''ABCDEFGHIJKLMNOPQRSTUVWXYZ''" if "x \<in> set L" for x
  proof -
    from that have "toUpperChar x \<in> set (map toUpperChar L)" by simp
    with t(3) show ?thesis by auto
  qed
  ultimately show ?thesis using t(1) by blast
qed

lemma upper_attr:
  assumes "map toUpperChar attr = ''ID=''"
  shows "attr \<noteq> [] \<and> \<not> isSpace (hd attr) \<and> hd attr \<noteq> CHR ''/'' \<and> CHR ''<'' \<notin> set attr"
proof -
  from assms obtain a b e where t: "attr = [a, b, e]" "toUpperChar a = CHR ''I''"
    "toUpperChar b = CHR ''D''" "toUpperChar e = CHR ''=''"
    by (cases attr; cases "tl attr"; cases "tl (tl attr)") auto
  from t(4) have "e = CHR ''=''" by (auto dest!: toUpperChar_nonletter)
  with t letter_props [of a] letter_props [of b] show ?thesis by auto
qed

lemma append_eq_cases:
  assumes "xs @ ys = zs @ ts"
  obtains (left) us where "xs = zs @ us" "us @ ys = ts"
    | (right) us where "xs @ us = zs" "ys = us @ ts"
proof -
  from assms have "\<exists>us. (xs = zs @ us \<and> us @ ys = ts) \<or> (xs @ us = zs \<and> ys = us @ ts)"
    by (simp only: append_eq_append_conv2)
  with that show thesis by blast
qed

lemma split_after_head:
  assumes "A @ Y = u @ a # v" and "u \<noteq> []" and "A \<noteq> []" and "a \<notin> set (tl A)"
  shows "\<exists>u2. u = A @ u2 \<and> Y = u2 @ a # v"
proof -
  from assms(1) show ?thesis
  proof (rule append_eq_cases)
    fix us
    assume 1: "A = u @ us" "us @ Y = a # v"
    show ?thesis
    proof (cases us)
      case Nil
      with 1 show ?thesis by simp
    next
      case (Cons b us')
      with 1 have "A = u @ a # us'" by simp
      with assms(2) have "a \<in> set (tl A)" by (cases u) simp_all
      with assms(4) show ?thesis by simp
    qed
  next
    fix us
    assume "A @ us = u" "Y = us @ a # v"
    then show ?thesis by auto
  qed
qed

lemma split_before_tail:
  assumes "X @ B = u2 @ a # v" and "a \<notin> set B"
  shows "\<exists>X2. X = u2 @ a # X2 \<and> v = X2 @ B"
proof -
  from assms(1) show ?thesis
  proof (rule append_eq_cases)
    fix us
    assume 1: "X = u2 @ us" "us @ B = a # v"
    show ?thesis
    proof (cases us)
      case Nil
      with 1 assms(2) show ?thesis by auto
    next
      case (Cons b us')
      with 1 show ?thesis by auto
    qed
  next
    fix us
    assume "X @ us = u2" "B = us @ a # v"
    with assms(2) show ?thesis by auto
  qed
qed

lemma quote_not_space: "isQuote x \<Longrightarrow> \<not> isSpace x"
  by (auto simp: isQuote_def isSpace_def)

lemma no_crossing_core:
  assumes eq: "X2 @ B @ s' = L @ W @ R"
    and X2: "\<forall>x \<in> set X2. \<not> isSpace x"
    and L: "\<forall>x \<in> set L. \<not> isSpace x \<and> \<not> isQuote x \<and> x \<noteq> CHR ''/''"
    and W: "W \<noteq> []" "\<forall>x \<in> set W. isSpace x"
    and R: "R \<noteq> []" "\<not> isSpace (hd R)" "hd R \<noteq> CHR ''/''"
    and B: "B = q @ W2 @ ''/>''" "\<forall>x \<in> set q. isQuote x" "\<forall>x \<in> set W2. isSpace x"
  shows False
proof -
  have Bne: "B \<noteq> []" using B(1) by simp
  have hdB: "isQuote (hd B) \<or> isSpace (hd B) \<or> hd B = CHR ''/''"
    using B by (cases q; cases W2) simp_all
  have hdW: "isSpace (hd W)" using W by (cases W) simp_all
  have step: "B @ s' = W @ R"
  proof -
    from eq show ?thesis
    proof (rule append_eq_cases)
      fix us
      assume 1: "X2 = L @ us" "us @ B @ s' = W @ R"
      show ?thesis
      proof (cases us)
        case Nil
        with 1 show ?thesis by simp
      next
        case (Cons b us')
        with 1(2) W(1) have "b = hd W" by (cases W) simp_all
        moreover from Cons 1(1) have "b \<in> set X2" by simp
        ultimately show ?thesis using X2 hdW by blast
      qed
    next
      fix us
      assume 2: "X2 @ us = L" "B @ s' = us @ W @ R"
      show ?thesis
      proof (cases us)
        case Nil
        with 2 show ?thesis by simp
      next
        case (Cons b us')
        with 2(2) Bne have "b = hd B" by (cases B) simp_all
        moreover from Cons 2(1) have "b \<in> set L" by auto
        ultimately show ?thesis using L hdB by blast
      qed
    qed
  qed
  with Bne W(1) have "hd B = hd W" by (cases B; cases W) simp_all
  with hdW have sp: "isSpace (hd B)" by simp
  have q: "q = []"
  proof (cases q)
    case Nil
    then show ?thesis .
  next
    case (Cons a q')
    with B have "isQuote (hd B)" by simp
    with sp quote_not_space show ?thesis by blast
  qed
  with step B(1) have "W2 @ (''/>'' @ s') = W @ R" by simp
  then show False
  proof (rule append_eq_cases)
    fix us
    assume 1: "W2 = W @ us" "us @ ''/>'' @ s' = R"
    show ?thesis
    proof (cases us)
      case Nil
      with 1 R(3) show ?thesis by auto
    next
      case (Cons b us')
      with 1 have "hd R = b" "b \<in> set W2" by auto
      with B(3) R(2) show ?thesis by blast
    qed
  next
    fix us
    assume 2: "W2 @ us = W" "''/>'' @ s' = us @ R"
    show ?thesis
    proof (cases us)
      case Nil
      with 2 R(1,3) show ?thesis by (cases R) auto
    next
      case (Cons b us')
      with 2 have "b = CHR ''/''" "b \<in> set W" by auto
      with W(2) slash_not_space show ?thesis by blast
    qed
  qed
qed

lemma lt_plain: "\<not> isSpace CHR ''<'' \<and> \<not> isQuote CHR ''<''"
  by (simp add: isSpace_def isQuote_def)

lemma reInternalLink_no_crossing:
  assumes ex: "regexExec True reInternalLink (u @ tag @ ws1 @ attr @ rest) = Some (n, c)"
    and u: "u \<noteq> []"
    and tag: "map toUpperChar tag = ''<INTERNALLINK''"
    and ws1: "ws1 \<noteq> []" "\<forall>x \<in> set ws1. isSpace x"
    and attr: "map toUpperChar attr = ''ID=''"
  shows "0 < n \<and> n \<le> length u"
proof -
  define S where "S = u @ tag @ ws1 @ attr @ rest"
  from regexExec_sound [OF ex] obtain s' where
    m: "matches True reInternalLink (S, Map.empty) (s', c)" and n: "n = length S - length s'"
    unfolding S_def by blast
  from m obtain tag' ws1' attr' q X ws2 where
    sh: "S = tag' @ ws1' @ attr' @ q @ X @ q @ ws2 @ ''/>'' @ s'" and
    tag': "map toUpperChar tag' = ''<INTERNALLINK''" and
    ws1': "ws1' \<noteq> []" "\<forall>x \<in> set ws1'. isSpace x" and
    attr': "map toUpperChar attr' = ''ID=''" and
    q: "\<forall>x \<in> set q. isQuote x" and
    X: "X \<noteq> []" "\<forall>x \<in> set X. isIdChar x" and
    ws2: "\<forall>x \<in> set ws2. isSpace x"
    by (rule reInternalLink_shape)
  define A where "A = tag' @ ws1' @ attr' @ q"
  define B where "B = q @ ws2 @ ''/>''"
  define M where "M = A @ X @ B"
  have s: "S = M @ s'" using sh by (simp add: M_def A_def B_def)
  with n have nlen: "n = length M" by simp
  have pos: "0 < n" using nlen X(1) by (simp add: M_def)
  obtain L where L: "tag = CHR ''<'' # L"
    "\<forall>x \<in> set L. toUpperChar x \<in> set ''ABCDEFGHIJKLMNOPQRSTUVWXYZ''"
    using upper_tag [OF tag] by blast
  obtain L' where L': "tag' = CHR ''<'' # L'"
    "\<forall>x \<in> set L'. toUpperChar x \<in> set ''ABCDEFGHIJKLMNOPQRSTUVWXYZ''"
    using upper_tag [OF tag'] by blast
  define T where "T = L @ ws1 @ attr @ rest"
  have S2: "S = u @ CHR ''<'' # T" by (simp add: S_def L(1) T_def)
  have "n \<le> length u"
  proof (rule ccontr)
    assume "\<not> n \<le> length u"
    with nlen have long: "length u < length M" by simp
    from s S2 have "M @ s' = u @ CHR ''<'' # T" by simp
    then obtain M2 where M2: "M = u @ CHR ''<'' # M2" "M2 @ s' = T"
    proof (rule append_eq_cases)
      fix us
      assume a: "M = u @ us" "us @ s' = CHR ''<'' # T"
      from a(1) long have "us \<noteq> []" by auto
      with a(2) obtain us' where "us = CHR ''<'' # us'" "us' @ s' = T"
        by (cases us) auto
      with a(1) that show thesis by simp
    next
      fix us
      assume "M @ us = u"
      then have "length u = length M + length us" by (metis length_append)
      with long show thesis by simp
    qed
    have tlA: "CHR ''<'' \<notin> set (tl A)"
    proof -
      have "CHR ''<'' \<notin> set L'" using L'(2) letter_props by blast
      moreover have "CHR ''<'' \<notin> set ws1'" using ws1'(2) lt_plain by blast
      moreover have "CHR ''<'' \<notin> set attr'" using upper_attr [OF attr'] by simp
      moreover have "CHR ''<'' \<notin> set q" using q lt_plain by blast
      ultimately show ?thesis using L'(1) by (simp add: A_def)
    qed
    have Ane: "A \<noteq> []" using L'(1) by (simp add: A_def)
    have notB: "CHR ''<'' \<notin> set B"
    proof -
      have "CHR ''<'' \<notin> set q" "CHR ''<'' \<notin> set ws2" using q ws2 lt_plain by blast+
      then show ?thesis by (simp add: B_def)
    qed
    from M2(1) have "A @ (X @ B) = u @ CHR ''<'' # M2" by (simp add: M_def)
    from split_after_head [OF this u Ane tlA] obtain u2 where
      u2: "u = A @ u2" "X @ B = u2 @ CHR ''<'' # M2" by blast
    from split_before_tail [OF u2(2) notB] obtain X2 where
      X2: "X = u2 @ CHR ''<'' # X2" "M2 = X2 @ B" by blast
    from X2(2) M2(2) have eq: "X2 @ B @ s' = L @ ws1 @ (attr @ rest)" by (simp add: T_def)
    have nsX2: "\<forall>x \<in> set X2. \<not> isSpace x" using X(2) X2(1) by (auto simp: isIdChar_def)
    have propL: "\<forall>x \<in> set L. \<not> isSpace x \<and> \<not> isQuote x \<and> x \<noteq> CHR ''/''"
      using L(2) letter_props by blast
    have R: "attr @ rest \<noteq> []" "\<not> isSpace (hd (attr @ rest))" "hd (attr @ rest) \<noteq> CHR ''/''"
      using upper_attr [OF attr] by simp_all
    from no_crossing_core [OF eq nsX2 propL ws1 R B_def q ws2] show False .
  qed
  with pos show ?thesis by simp
qed

lemma reInternalLink_exact:
  assumes "regexExec True reInternalLink s = Some (n, c)"
  obtains P s' where "s = P @ s'" "n = length P"
    "\<forall>post. regexExec True reInternalLink (P @ post) = Some (length P, c)"
proof -
  from regexExec_sound [OF assms] obtain s' where
    m: "matches True reInternalLink (s, Map.empty) (s', c)" and n: "n = length s - length s'"
    by blast
  from m obtain tag ws1 attr q X ws2 where
    sh: "s = tag @ ws1 @ attr @ q @ X @ q @ ws2 @ ''/>'' @ s'" and
    tag: "map toUpperChar tag = ''<INTERNALLINK''" and
    ws1: "ws1 \<noteq> []" "\<forall>x \<in> set ws1. isSpace x" and
    attr: "map toUpperChar attr = ''ID=''" and
    q: "\<forall>x \<in> set q. isQuote x" and
    X: "X \<noteq> []" "\<forall>x \<in> set X. isIdChar x" and
    ws2: "\<forall>x \<in> set ws2. isSpace x" and
    c: "c = [1 \<mapsto> q, 2 \<mapsto> X]" and
    lq: "length q \<le> 1"
    by (rule reInternalLink_shape)
  let ?P = "tag @ ws1 @ attr @ q @ X @ q @ ws2 @ ''/>''"
  from q lq have q': "q = [] \<or> (\<exists>ch. q = [ch] \<and> isQuote ch)"
    by (cases q) auto
  have 1: "s = ?P @ s'" using sh by simp
  with n have 2: "n = length ?P" by simp
  have "regexExec True reInternalLink (?P @ post) = Some (length ?P, c)" for post
    using reInternalLink_hit [OF tag ws1 attr q' X ws2, of post] c by simp
  then have 3: "\<forall>post. regexExec True reInternalLink (?P @ post) = Some (length ?P, c)" ..
  from 1 2 3 show thesis by (rule that)
qed

lemma reInternalLink_down:
  assumes "regexExec True reInternalLink (s @ t) = Some (n, c)" and "n \<le> length s"
  shows "regexExec True reInternalLink s = Some (n, c)"
proof -
  from assms(1) obtain P s' where P: "s @ t = P @ s'" "n = length P"
    "\<forall>post. regexExec True reInternalLink (P @ post) = Some (length P, c)"
    by (rule reInternalLink_exact)
  from P(1) have "take n (s @ t) = take n (P @ s')" by simp
  with P(2) assms(2) have "take n s = P" by simp
  then have "s = P @ drop n s" by (metis append_take_drop_id)
  with P(3) [rule_format, of "drop n s"] P(2) show ?thesis by simp
qed

lemma reInternalLink_up:
  assumes "regexExec True reInternalLink s = Some (n, c)"
  shows "regexExec True reInternalLink (s @ t) = Some (n, c)"
proof -
  from assms obtain P s' where P: "s = P @ s'" "n = length P"
    "\<forall>post. regexExec True reInternalLink (P @ post) = Some (length P, c)"
    by (rule reInternalLink_exact)
  from P(3) [rule_format, of "s' @ t"] P(1,2) show ?thesis by simp
qed

lemma reInternalLink_empty: "regexExec True reInternalLink [] = None"
  by (simp add: regex_eval reInternalLink_def)

lemma replace_internal_link:
  assumes tag: "map toUpperChar tag = ''<INTERNALLINK''"
    and ws1: "ws1 \<noteq> []" "\<forall>x \<in> set ws1. isSpace x"
    and attr: "map toUpperChar attr = ''ID=''"
    and q: "q = [] \<or> (\<exists>ch. q = [ch] \<and> isQuote ch)"
    and X: "X \<noteq> []" "\<forall>x \<in> set X. isIdChar x"
    and ws2: "\<forall>x \<in> set ws2. isSpace x"
  shows "replaceAll True reInternalLink f
            (pre @ (tag @ ws1 @ attr @ q @ X @ q @ ws2 @ ''/>'') @ post) =
          replaceAll True reInternalLink f pre
            @ f (tag @ ws1 @ attr @ q @ X @ q @ ws2 @ ''/>'') [1 \<mapsto> q, 2 \<mapsto> X]
            @ replaceAll True reInternalLink f post"
proof -
  let ?P = "tag @ ws1 @ attr @ q @ X @ q @ ws2 @ ''/>''"
  have hit: "regexExec True reInternalLink (?P @ post) = Some (length ?P, [1 \<mapsto> q, 2 \<mapsto> X])"
    using reInternalLink_hit [OF tag ws1 attr q X ws2, of post] by simp
  have "?P \<noteq> []" using X(1) by simp
  from replaceAll_at [OF hit this] have
    at: "replaceAll True reInternalLink f (?P @ post) =
         f ?P [1 \<mapsto> q, 2 \<mapsto> X] @ replaceAll True reInternalLink f post" .
  have "replaceAll True reInternalLink f (pre @ (?P @ post)) =
      replaceAll True reInternalLink f pre @ replaceAll True reInternalLink f (?P @ post)"
  proof (rule replaceAll_local)
    fix k n c
    assume k: "k < length pre"
      and e: "regexExec True reInternalLink (drop k pre @ ?P @ post) = Some (n, c)"
    from k have ne: "drop k pre \<noteq> []" by simp
    from e have "regexExec True reInternalLink
        (drop k pre @ tag @ ws1 @ attr @ (q @ X @ q @ ws2 @ ''/>'' @ post)) = Some (n, c)"
      by simp
    from reInternalLink_no_crossing [OF this ne tag ws1 attr]
    have "0 < n \<and> n \<le> length (drop k pre)" .
    with k show "0 < n \<and> k + n \<le> length pre" by (simp add: less_imp_le_nat) arith
  qed (rule reInternalLink_down, assumption+, rule reInternalLink_up, assumption,
      rule reInternalLink_empty)
  with at show ?thesis by simp
qed

text \<open>
  A placeholder that ends in \<open>>\<close> without the slash. Runs of characters of one class
  that are followed by a character outside the class are determined by the text, which
  pins down every part of a match that would begin at the placeholder.
\<close>

lemma run_takeWhile:
  assumes "\<forall>x \<in> set a. P x" and "u = [] \<or> \<not> P (hd u)"
  shows "takeWhile P (a @ u) = a"
proof -
  from assms(2) have "takeWhile P u = []" by (cases u) auto
  with assms(1) show ?thesis by (simp add: takeWhile_append2)
qed

lemma run_eq:
  assumes "a @ u = b @ v" and "\<forall>x \<in> set a. P x" and "\<forall>x \<in> set b. P x"
    and "u = [] \<or> \<not> P (hd u)" and "v = [] \<or> \<not> P (hd v)"
  shows "a = b \<and> u = v"
proof -
  from run_takeWhile [OF assms(2,4)] run_takeWhile [OF assms(3,5)] assms(1)
  have "a = b" by simp
  with assms(1) show ?thesis by simp
qed

lemma run_prefix:
  assumes "a @ u = b @ v" and "\<forall>x \<in> set a. P x" and "v \<noteq> []" and "\<not> P (hd v)"
  shows "\<exists>r. b = a @ r \<and> u = r @ v"
  using assms(1)
proof (rule append_eq_cases)
  fix w
  assume w: "a = b @ w" "w @ u = v"
  have "w = []"
  proof (rule ccontr)
    assume "w \<noteq> []"
    with w(2) have "hd v = hd w" by (cases w) auto
    moreover from \<open>w \<noteq> []\<close> w(1) have "hd w \<in> set a" by (cases w) auto
    ultimately show False using assms(2,4) by auto
  qed
  with w show ?thesis by simp
next
  fix w
  assume "a @ w = b" "u = w @ v"
  then show ?thesis by blast
qed

lemma reInternalLink_starts_lt:
  assumes "regexExec True reInternalLink s = Some (n, c)"
  shows "s \<noteq> [] \<and> hd s = CHR ''<''"
proof -
  from regexExec_sound [OF assms] obtain s' where
    "matches True reInternalLink (s, Map.empty) (s', c)" by blast
  then obtain tag ws1 attr q X ws2 where
    "s = tag @ ws1 @ attr @ q @ X @ q @ ws2 @ ''/>'' @ s'"
    "map toUpperChar tag = ''<INTERNALLINK''"
    by (rule reInternalLink_shape)
  with upper_tag [of tag] show ?thesis by auto
qed

lemma gt_props: "\<not> isSpace CHR ''>'' \<and> \<not> isIdChar CHR ''>'' \<and> \<not> isSpace CHR ''/''"
  by (simp add: isSpace_def isIdChar_def)

lemma reInternalLink_unclosed:
  assumes tag: "map toUpperChar tag = ''<INTERNALLINK''"
    and ws1: "ws1 \<noteq> []" "\<forall>x \<in> set ws1. isSpace x"
    and attr: "map toUpperChar attr = ''ID=''"
    and q: "q = [] \<or> q = [CHR 0x22] \<or> q = [CHR 0x27]"
    and X: "ident \<noteq> []" "\<forall>x \<in> set ident. isIdChar x"
    and ws2: "\<forall>x \<in> set ws2. isSpace x"
    and open_end: "q \<noteq> [] \<or> ws2 \<noteq> [] \<or> last ident \<noteq> CHR ''/''"
  shows "regexExec True reInternalLink (tag @ ws1 @ attr @ q @ ident @ q @ ws2 @ ''>'' @ post) = None"
proof (cases "regexExec True reInternalLink (tag @ ws1 @ attr @ q @ ident @ q @ ws2 @ ''>'' @ post)")
  case None
  then show ?thesis .
next
  case (Some a)
  obtain n c where "a = (n, c)" by (cases a)
  with Some regexExec_sound obtain s' where
    m: "matches True reInternalLink
          (tag @ ws1 @ attr @ q @ ident @ q @ ws2 @ ''>'' @ post, Map.empty) (s', c)"
    by blast
  from m obtain tag' ws1' attr' q' X' ws2' where
    sh: "tag @ ws1 @ attr @ q @ ident @ q @ ws2 @ ''>'' @ post =
         tag' @ ws1' @ attr' @ q' @ X' @ q' @ ws2' @ ''/>'' @ s'" and
    tag': "map toUpperChar tag' = ''<INTERNALLINK''" and
    ws1': "ws1' \<noteq> []" "\<forall>x \<in> set ws1'. isSpace x" and
    attr': "map toUpperChar attr' = ''ID=''" and
    q': "\<forall>x \<in> set q'. isQuote x" and
    X': "X' \<noteq> []" "\<forall>x \<in> set X'. isIdChar x" and
    ws2': "\<forall>x \<in> set ws2'. isSpace x"
    by (rule reInternalLink_shape)
  have qq: "\<forall>x \<in> set q. isQuote x" using q by (auto simp: isQuote_def)
  have hdI: "\<not> isQuote (hd ident)" "\<not> isQuote (hd X')"
    using X X' by (cases ident; cases X'; auto simp: isIdChar_def)+
  have "length tag = length tag'"
    using tag tag' by (metis length_map)
  with sh have 1: "ws1 @ (attr @ q @ ident @ q @ ws2 @ ''>'' @ post) =
      ws1' @ (attr' @ q' @ X' @ q' @ ws2' @ ''/>'' @ s')" by simp
  have "attr @ q @ ident @ q @ ws2 @ ''>'' @ post = attr' @ q' @ X' @ q' @ ws2' @ ''/>'' @ s'"
    using run_eq [OF 1 ws1(2) ws1'(2)] upper_attr [OF attr] upper_attr [OF attr']
    by (cases attr; cases attr') simp_all
  moreover have "length attr = length attr'" using attr attr' by (metis length_map)
  ultimately have 2: "q @ (ident @ q @ ws2 @ ''>'' @ post) = q' @ (X' @ q' @ ws2' @ ''/>'' @ s')"
    by simp
  have 3: "q = q' \<and> ident @ q @ ws2 @ ''>'' @ post = X' @ q' @ ws2' @ ''/>'' @ s'"
    using run_eq [OF 2 qq q'] X(1) X'(1) hdI by (cases ident; cases X') simp_all
  note 3 [THEN conjunct1, symmetric] 3 [THEN conjunct2]
  then have 4: "ident @ (q @ ws2 @ ''>'' @ post) = X' @ (q @ ws2' @ ''/>'' @ s')" by simp
  have tail: False if "ws2 @ ''>'' @ post = ws2' @ ''/>'' @ s'"
  proof -
    from that have "ws2 @ (''>'' @ post) = ws2' @ (''/>'' @ s')" by simp
    from run_eq [OF this ws2 ws2'] gt_props show False by simp
  qed
  show ?thesis
  proof (cases "q = []")
    case False
    with qq have nq: "q @ ws2 @ ''>'' @ post \<noteq> []" "\<not> isIdChar (hd (q @ ws2 @ ''>'' @ post))"
      by (cases q; auto simp: isIdChar_def)+
    from False qq have nq': "q @ ws2' @ ''/>'' @ s' \<noteq> []" "\<not> isIdChar (hd (q @ ws2' @ ''/>'' @ s'))"
      by (cases q; auto simp: isIdChar_def)+
    from run_eq [OF 4 X(2) X'(2)] nq nq' have "q @ ws2 @ ''>'' @ post = q @ ws2' @ ''/>'' @ s'"
      by simp
    with tail show ?thesis by simp
  next
    case True
    with 4 have 5: "X' @ (ws2' @ ''/>'' @ s') = ident @ (ws2 @ ''>'' @ post)" by simp
    have v: "ws2 @ ''>'' @ post \<noteq> []" "\<not> isIdChar (hd (ws2 @ ''>'' @ post))"
      using ws2 gt_props by (cases ws2; auto simp: isIdChar_def)+
    from run_prefix [OF 5 X'(2) v] obtain r where
      r: "ident = X' @ r" "ws2' @ ''/>'' @ s' = r @ ws2 @ ''>'' @ post" by blast
    show ?thesis
    proof (cases r)
      case Nil
      with r(2) tail show ?thesis by simp
    next
      case (Cons y r')
      with r(1) X(2) have y: "isIdChar y" "\<forall>x \<in> set r'. isIdChar x" by simp_all
      from y(1) have "\<not> isSpace y" by (simp add: isIdChar_def)
      with r(2) Cons ws2' have "ws2' = []" by (cases ws2') auto
      with r(2) Cons have e: "y = CHR ''/''" "r' @ ws2 @ ''>'' @ post = CHR ''>'' # s'" by simp_all
      from e(2) y(2) gt_props have "r' = []" by (cases r') auto
      with e(2) ws2 gt_props have "ws2 = []" by (cases ws2) auto
      from \<open>r' = []\<close> Cons r(1) e(1) have "last ident = CHR ''/''" by simp
      with open_end True \<open>ws2 = []\<close> show ?thesis by simp
    qed
  qed
qed

lemma replace_unclosed_link:
  assumes tag: "map toUpperChar tag = ''<INTERNALLINK''"
    and ws1: "ws1 \<noteq> []" "\<forall>x \<in> set ws1. isSpace x"
    and attr: "map toUpperChar attr = ''ID=''"
    and q: "q = [] \<or> q = [CHR 0x22] \<or> q = [CHR 0x27]"
    and X: "ident \<noteq> []" "\<forall>x \<in> set ident. isIdChar x"
    and ws2: "\<forall>x \<in> set ws2. isSpace x"
    and open_end: "q \<noteq> [] \<or> ws2 \<noteq> [] \<or> last ident \<noteq> CHR ''/''"
    and lt: "CHR ''<'' \<notin> set ident"
  shows "replaceAll True reInternalLink f
            (pre @ (tag @ ws1 @ attr @ q @ ident @ q @ ws2 @ ''>'') @ post) =
          replaceAll True reInternalLink f pre
            @ (tag @ ws1 @ attr @ q @ ident @ q @ ws2 @ ''>'')
            @ replaceAll True reInternalLink f post"
proof -
  let ?P = "tag @ ws1 @ attr @ q @ ident @ q @ ws2 @ ''>''"
  obtain L where L: "tag = CHR ''<'' # L"
    "\<forall>x \<in> set L. toUpperChar x \<in> set ''ABCDEFGHIJKLMNOPQRSTUVWXYZ''"
    using upper_tag [OF tag] by blast
  define T where "T = L @ ws1 @ attr @ q @ ident @ q @ ws2 @ ''>''"
  have P: "?P = CHR ''<'' # T" by (simp add: T_def L(1))
  have noT: "CHR ''<'' \<notin> set T"
  proof -
    have "CHR ''<'' \<notin> set L" using L(2) letter_props by blast
    moreover have "CHR ''<'' \<notin> set ws1" "CHR ''<'' \<notin> set ws2" using ws1(2) ws2 lt_plain by blast+
    moreover have "CHR ''<'' \<notin> set attr" using upper_attr [OF attr] by simp
    moreover have "CHR ''<'' \<notin> set q" using q by auto
    ultimately show ?thesis using lt by (simp add: T_def)
  qed
  have skip: "replaceAll True reInternalLink f (?P @ post) = ?P @ replaceAll True reInternalLink f post"
  proof (rule replaceAll_skip)
    fix k
    assume k: "k < length ?P"
    show "regexExec True reInternalLink (drop k ?P @ post) = None"
    proof (cases k)
      case 0
      with reInternalLink_unclosed [OF tag ws1 attr q X ws2 open_end, of post] show ?thesis by simp
    next
      case (Suc j)
      with k P have j: "j < length T" by simp
      from Suc P have d: "drop k ?P = drop j T" by simp
      from j have ne: "drop j T \<noteq> []" by simp
      then have "hd (drop j T) \<in> set (drop j T)" by (rule hd_in_set)
      then have "hd (drop j T) \<in> set T" by (rule in_set_dropD)
      with noT have nlt: "hd (drop j T) \<noteq> CHR ''<''" by auto
      show ?thesis
      proof (cases "regexExec True reInternalLink (drop k ?P @ post)")
        case None
        then show ?thesis .
      next
        case (Some a)
        obtain n c where "a = (n, c)" by (cases a)
        with Some reInternalLink_starts_lt [of "drop k ?P @ post" n c]
        have "hd (drop k ?P @ post) = CHR ''<''" by simp
        with d ne nlt show ?thesis by simp
      qed
    qed
  qed
  have "replaceAll True reInternalLink f (pre @ (?P @ post)) =
      replaceAll True reInternalLink f pre @ replaceAll True reInternalLink f (?P @ post)"
  proof (rule replaceAll_local)
    fix k n c
    assume k: "k < length pre"
      and e: "regexExec True reInternalLink (drop k pre @ ?P @ post) = Some (n, c)"
    from k have ne: "drop k pre \<noteq> []" by simp
    from e have "regexExec True reInternalLink
        (drop k pre @ tag @ ws1 @ attr @ (q @ ident @ q @ ws2 @ ''>'' @ post)) = Some (n, c)"
      by simp
    from reInternalLink_no_crossing [OF this ne tag ws1 attr]
    have "0 < n \<and> n \<le> length (drop k pre)" .
    with k show "0 < n \<and> k + n \<le> length pre" by (simp add: less_imp_le_nat) arith
  qed (rule reInternalLink_down, assumption+, rule reInternalLink_up, assumption,
      rule reInternalLink_empty)
  with skip show ?thesis by simp
qed

section \<open>The shape of a heading match\<close>

lemma gt_not_space: "\<not> isSpace CHR ''>''"
  by (simp add: isSpace_def)

lemma space_not_gt: "isSpace x \<Longrightarrow> x \<noteq> CHR ''>''"
  using gt_not_space by blast

lemma lit_gt_hit: "matchK True (Lit ''>'') (CHR ''>'' # post) c accept = Some (post, c)"
  by (simp add: canonicalize_def)

lemma reH2Open_hit:
  assumes tag: "map toUpperChar tag = ''<H2''"
    and attrs: "attrs = [] \<or> isSpace (hd attrs)" "CHR ''>'' \<notin> set attrs"
  shows "regexExec True reH2Open (tag @ attrs @ ''>'' @ post) =
      Some (length (tag @ attrs @ ''>''), if attrs = [] then Map.empty else [1 \<mapsto> attrs])"
proof -
  let ?s = "attrs @ ''>'' @ post"
  let ?K = "\<lambda>s' c'. matchK True (Lit ''>'') s' c' accept"
  have lit: "map (canonicalize True) tag = map (canonicalize True) ''<h2''"
    using tag by (simp add: canonicalize_True toUpperChar_def upperTable_def)
  let ?C = "if attrs = [] then Map.empty else [1 \<mapsto> attrs]"
  have opt: "matchK True (Opt True (Group 1 h2Attrs)) ?s Map.empty ?K = Some (post, ?C)"
  proof (cases attrs)
    case Nil
    have "matchK True (Group 1 h2Attrs) (CHR ''>'' # post) Map.empty
        (\<lambda>s' c'. if length s' < length (CHR ''>'' # post) then ?K s' c' else None) = None"
      by (simp add: gt_not_space del: matchK.simps(4))
    then have "matchK True (Opt True (Group 1 h2Attrs)) (CHR ''>'' # post) Map.empty ?K
        = ?K (CHR ''>'' # post) Map.empty"
      by (simp only: matchK.simps(6) if_True option.case)
    with Nil show ?thesis by (simp add: canonicalize_def)
  next
    case (Cons a as)
    with attrs have a: "isSpace a" by simp
    let ?c = "[1 \<mapsto> attrs]"
    let ?K1 = "\<lambda>s' c'. if length s' < length ?s then ?K s' c' else None"
    let ?K2 = "\<lambda>s' c'. ?K1 s' (c'(1 \<mapsto> take (length ?s - length s') ?s))"
    let ?K3 = "\<lambda>s' c'. matchK True (Star True (Cls (\<lambda>ch. ch \<noteq> CHR ''>''))) s' c' ?K2"
    have tk: "take (length ?s - length (CHR ''>'' # post)) ?s = attrs" by simp
    have k2: "?K2 (CHR ''>'' # post) Map.empty = Some (post, ?c)"
      using Cons by (simp only: tk) (simp add: canonicalize_def)
    have k3: "?K3 (dropWhile isSpace as @ CHR ''>'' # post) Map.empty = Some (post, ?c)"
    proof (rule star_cls_greedy)
      show "\<forall>x \<in> set (dropWhile isSpace as). x \<noteq> CHR ''>''"
        using attrs(2) Cons by (auto dest: set_dropWhileD)
      show "CHR ''>'' # post = [] \<or> \<not> hd (CHR ''>'' # post) \<noteq> CHR ''>''" by simp
      show "?K2 (CHR ''>'' # post) Map.empty = Some (post, ?c)" by (rule k2)
    qed
    have "matchK True (Star True (Cls isSpace))
        (takeWhile isSpace as @ (dropWhile isSpace as @ CHR ''>'' # post)) Map.empty ?K3
        = Some (post, ?c)"
    proof (rule star_cls_greedy)
      show "\<forall>x \<in> set (takeWhile isSpace as). isSpace x" by (auto dest: set_takeWhileD)
      show "dropWhile isSpace as @ CHR ''>'' # post = []
          \<or> \<not> isSpace (hd (dropWhile isSpace as @ CHR ''>'' # post))"
      proof (cases "dropWhile isSpace as")
        case Nil
        show ?thesis unfolding Nil by (simp add: gt_not_space)
      next
        case (Cons b bs)
        with hd_dropWhile [of isSpace as] show ?thesis by simp
      qed
      show "?K3 (dropWhile isSpace as @ CHR ''>'' # post) Map.empty = Some (post, ?c)"
        by (rule k3)
    qed
    then have st: "matchK True (Star True (Cls isSpace)) (as @ CHR ''>'' # post) Map.empty ?K3
        = Some (post, ?c)"
      by (simp only: append_assoc [symmetric] takeWhile_dropWhile_id)
    have "matchK True (Group 1 h2Attrs) ?s Map.empty ?K1 =
        matchK True (Plus True (Cls isSpace)) ?s Map.empty ?K3"
      by (simp only: matchK.simps(3,7))
    also have "\<dots> = matchK True (Star True (Cls isSpace)) (as @ CHR ''>'' # post) Map.empty ?K3"
      using Cons a by (simp del: matchK.simps(4))
    finally have "matchK True (Group 1 h2Attrs) ?s Map.empty ?K1 = Some (post, ?c)"
      using st by simp
    then have "matchK True (Opt True (Group 1 h2Attrs)) ?s Map.empty ?K = Some (post, ?c)"
      by (simp only: matchK.simps(6) if_True option.case)
    then show ?thesis using Cons by simp
  qed
  have "matchK True reH2Open (tag @ ?s) Map.empty accept =
      matchK True (Opt True (Group 1 h2Attrs)) ?s Map.empty ?K"
    unfolding reH2Open_def using lit by (simp only: matchK.simps(3) matchK_Lit_hit)
  with opt show ?thesis by (simp add: regexExec_def)
qed

lemma upper_h2:
  assumes "map toUpperChar tag = ''<H2''"
  shows "tag \<noteq> [] \<and> hd tag = CHR ''<'' \<and> CHR ''>'' \<notin> set tag"
proof -
  from assms obtain a b e where t: "tag = [a, b, e]" "toUpperChar a = CHR ''<''"
    "toUpperChar b = CHR ''H''" "toUpperChar e = CHR ''2''"
    by (cases tag; cases "tl tag"; cases "tl (tl tag)") auto
  from t(2,4) have "a = CHR ''<''" "e = CHR ''2''" by (auto dest!: toUpperChar_nonletter)
  with t letter_props [of b] show ?thesis by auto
qed

lemma reH2Open_shape:
  assumes "matches True reH2Open (s, Map.empty) (s', c)"
  obtains tag G where
    "s = tag @ G @ ''>'' @ s'" "map toUpperChar tag = ''<H2''" "CHR ''>'' \<notin> set G"
    "G = [] \<or> isSpace (hd G)"
proof -
  from assms [unfolded reH2Open_def matches_Seq_iff] obtain st1 st2 where
    m1: "matches True (Lit ''<h2'') (s, Map.empty) st1" and
    m2: "matches True (Opt True (Group 1 h2Attrs)) st1 st2" and
    m3: "matches True (Lit ''>'') st2 (s', c)"
    by blast
  obtain s1 c1 where st1: "st1 = (s1, c1)" by (cases st1)
  obtain s2 c2 where st2: "st2 = (s2, c2)" by (cases st2)
  from m1 st1 matches_Lit obtain tag where
    tag: "s = tag @ s1" "map (canonicalize True) tag = map (canonicalize True) ''<h2''" by blast
  have G: "\<exists>G. s1 = G @ s2 \<and> CHR ''>'' \<notin> set G \<and> (G = [] \<or> isSpace (hd G))"
  proof -
    from m2 have "st2 = st1 \<or> matches True (Group 1 h2Attrs) st1 st2"
      by (auto elim: matches_OptE)
    then show ?thesis
    proof
      assume "st2 = st1"
      with st1 st2 show ?thesis by (intro exI [of _ "[]"]) simp
    next
      assume "matches True (Group 1 h2Attrs) st1 st2"
      with st1 st2 obtain c2' where "matches True h2Attrs (s1, c1) (s2, c2')"
        by (auto elim: matches_GroupE)
      then obtain st3 where a: "matches True (Plus True (Cls isSpace)) (s1, c1) st3"
        and b: "matches True (Star True (Cls (\<lambda>ch. ch \<noteq> CHR ''>''))) st3 (s2, c2')"
        unfolding matches_Seq_iff by blast
      obtain s3 c3 where st3: "st3 = (s3, c3)" by (cases st3)
      from a st3 matches_Plus obtain w where
        w: "s1 = w @ s3" "\<forall>x \<in> set w. isSpace x" "w \<noteq> []" by blast
      from w(2,3) have "isSpace (hd (w @ w2))" for w2 by (cases w) simp_all
      note hdw = this
      from b st3 matches_Star obtain w2 where w2: "s3 = w2 @ s2" "\<forall>x \<in> set w2. x \<noteq> CHR ''>''"
        by blast
      from w(2) space_not_gt have "CHR ''>'' \<notin> set w" by blast
      with w w2 hdw [of w2] show ?thesis by (intro exI [of _ "w @ w2"]) auto
    qed
  qed
  then obtain G where G: "s1 = G @ s2" "CHR ''>'' \<notin> set G" "G = [] \<or> isSpace (hd G)" by blast
  from m3 st2 matches_Lit obtain e where
    e: "s2 = e @ s'" "map (canonicalize True) e = map (canonicalize True) ''>''" by blast
  from e(2) obtain x where "e = [x]" "toUpperChar x = CHR ''>''"
    by (cases e) (auto simp: canonicalize_True toUpperChar_def upperTable_def)
  then have e': "e = ''>''" by (auto dest!: toUpperChar_nonletter)
  have f1: "s = tag @ G @ ''>'' @ s'" using tag(1) G(1) e(1) e' by simp
  have f2: "map toUpperChar tag = ''<H2''"
    using tag(2) by (simp add: canonicalize_True toUpperChar_def upperTable_def)
  show thesis by (rule that [OF f1 f2 G(2,3)])
qed

lemma reH2Open_starts_lt:
  assumes "regexExec True reH2Open s = Some (n, c)"
  shows "s \<noteq> [] \<and> hd s = CHR ''<''"
proof -
  from regexExec_sound [OF assms] obtain s' where
    "matches True reH2Open (s, Map.empty) (s', c)" by blast
  then obtain tag G where "s = tag @ G @ ''>'' @ s'" "map toUpperChar tag = ''<H2''"
    by (rule reH2Open_shape)
  with upper_h2 [of tag] show ?thesis by (cases tag) auto
qed

lemma reH2Open_no_crossing:
  assumes ex: "regexExec True reH2Open (u @ rest) = Some (n, c)"
    and u: "u \<noteq> []" "last u = CHR ''>''"
  shows "0 < n \<and> n \<le> length u"
proof -
  define S where "S = u @ rest"
  from regexExec_sound [OF ex] obtain s' where
    m: "matches True reH2Open (S, Map.empty) (s', c)" and n: "n = length S - length s'"
    unfolding S_def by blast
  from m obtain tag G where
    sh: "S = tag @ G @ ''>'' @ s'" and tag: "map toUpperChar tag = ''<H2''"
    and G: "CHR ''>'' \<notin> set G"
    by (rule reH2Open_shape)
  define M where "M = tag @ G"
  have nogt: "CHR ''>'' \<notin> set M" using G upper_h2 [OF tag] by (simp add: M_def)
  have s: "S = (M @ ''>'') @ s'" using sh by (simp add: M_def)
  with n have nlen: "n = Suc (length M)" by simp
  have "n \<le> length u"
  proof (rule ccontr)
    assume "\<not> n \<le> length u"
    with nlen have long: "length u \<le> length M" by simp
    from s have "u @ rest = M @ (''>'' @ s')" by (simp add: S_def)
    then have "take (length u) M = u" using long
      by (metis append_eq_append_conv_if append_eq_conv_conj)
    then have "set u \<subseteq> set M" by (metis set_take_subset)
    moreover from u have "CHR ''>'' \<in> set u" by (metis last_in_set)
    ultimately show False using nogt by blast
  qed
  with nlen show ?thesis by simp
qed

lemma reH2Open_exact:
  assumes "regexExec True reH2Open s = Some (n, c)"
  obtains P s' where "s = P @ s'" "n = length P"
    "\<forall>post. regexExec True reH2Open (P @ post) = Some (length P, c)"
proof -
  from regexExec_sound [OF assms] obtain s' where
    m: "matches True reH2Open (s, Map.empty) (s', c)" and n: "n = length s - length s'"
    by blast
  from m obtain tag G where
    sh: "s = tag @ G @ ''>'' @ s'" and tag: "map toUpperChar tag = ''<H2''"
    and G: "CHR ''>'' \<notin> set G" "G = [] \<or> isSpace (hd G)"
    by (rule reH2Open_shape)
  let ?P = "tag @ G @ ''>''"
  let ?C = "if G = [] then Map.empty else [1 \<mapsto> G]"
  have 1: "s = ?P @ s'" using sh by simp
  with n have 2: "n = length ?P" by simp
  have hit: "regexExec True reH2Open (?P @ post) = Some (length ?P, ?C)" for post
    using reH2Open_hit [OF tag G(2,1), of post] by simp
  from hit [of s'] 1 assms have "c = ?C" by simp
  with hit have 3: "\<forall>post. regexExec True reH2Open (?P @ post) = Some (length ?P, c)" by simp
  from 1 2 3 show thesis by (rule that)
qed

lemma reH2Open_down:
  assumes "regexExec True reH2Open (s @ t) = Some (n, c)" and "n \<le> length s"
  shows "regexExec True reH2Open s = Some (n, c)"
proof -
  from assms(1) obtain P s' where P: "s @ t = P @ s'" "n = length P"
    "\<forall>post. regexExec True reH2Open (P @ post) = Some (length P, c)"
    by (rule reH2Open_exact)
  from P(1) have "take n (s @ t) = take n (P @ s')" by simp
  with P(2) assms(2) have "take n s = P" by simp
  then have "s = P @ drop n s" by (metis append_take_drop_id)
  with P(3) [rule_format, of "drop n s"] P(2) show ?thesis by simp
qed

lemma reH2Open_up:
  assumes "regexExec True reH2Open s = Some (n, c)"
  shows "regexExec True reH2Open (s @ t) = Some (n, c)"
proof -
  from assms obtain P s' where P: "s = P @ s'" "n = length P"
    "\<forall>post. regexExec True reH2Open (P @ post) = Some (length P, c)"
    by (rule reH2Open_exact)
  from P(3) [rule_format, of "s' @ t"] P(1,2) show ?thesis by simp
qed

lemma reH2Open_empty: "regexExec True reH2Open [] = None"
  by (simp add: regex_eval reH2Open_def)

lemma replace_h2_open:
  assumes tag: "map toUpperChar tag = ''<H2''"
    and attrs: "attrs = [] \<or> isSpace (hd attrs)" "CHR ''>'' \<notin> set attrs"
    and pre: "pre1 = [] \<or> last pre1 = CHR ''>''" "CHR ''<'' \<notin> set pre2"
    and f: "\<And>m c. f m c = g (capture c 1)"
  shows "replaceAll True reH2Open f (pre1 @ pre2 @ (tag @ attrs @ ''>'') @ post) =
          replaceAll True reH2Open f (pre1 @ pre2) @ g attrs @ replaceAll True reH2Open f post"
proof -
  let ?P = "tag @ attrs @ ''>''"
  let ?C = "if attrs = [] then Map.empty else [1 \<mapsto> attrs]"
  have hit: "regexExec True reH2Open (?P @ post) = Some (length ?P, ?C)"
    using reH2Open_hit [OF tag attrs, of post] by simp
  have c: "capture ?C 1 = attrs" by (simp add: capture_def)
  have "?P \<noteq> []" by simp
  from replaceAll_at [OF hit this] f c have
    at: "replaceAll True reH2Open f (?P @ post) = g attrs @ replaceAll True reH2Open f post"
    by simp
  have "replaceAll True reH2Open f ((pre1 @ pre2) @ (?P @ post)) =
      replaceAll True reH2Open f (pre1 @ pre2) @ replaceAll True reH2Open f (?P @ post)"
  proof (rule replaceAll_local)
    fix k n c
    assume k: "k < length (pre1 @ pre2)"
      and e: "regexExec True reH2Open (drop k (pre1 @ pre2) @ ?P @ post) = Some (n, c)"
    show "0 < n \<and> k + n \<le> length (pre1 @ pre2)"
    proof (cases "k < length pre1")
      case True
      then have ne: "drop k pre1 \<noteq> []" by simp
      with pre(1) True have l: "last (drop k pre1) = CHR ''>''" by auto
      from e True have "regexExec True reH2Open (drop k pre1 @ (pre2 @ ?P @ post)) = Some (n, c)"
        by simp
      from reH2Open_no_crossing [OF this ne l] have "0 < n \<and> n \<le> length (drop k pre1)" .
      with True show ?thesis by simp arith
    next
      case False
      with k have ne: "drop (k - length pre1) pre2 \<noteq> []" by simp
      from e False have e': "regexExec True reH2Open (drop (k - length pre1) pre2 @ ?P @ post)
          = Some (n, c)" by simp
      from reH2Open_starts_lt [OF e'] ne have "hd (drop (k - length pre1) pre2) = CHR ''<''"
        by simp
      with ne have "CHR ''<'' \<in> set (drop (k - length pre1) pre2)" by (metis hd_in_set)
      then have "CHR ''<'' \<in> set pre2" by (metis in_set_dropD)
      with pre(2) show ?thesis by simp
    qed
  qed (rule reH2Open_down, assumption+, rule reH2Open_up, assumption, rule reH2Open_empty)
  with at show ?thesis by simp
qed

section \<open>The link table\<close>

lemma linkMap_snoc:
  "linkMap (links @ [l]) = (linkMap links)(toLowerCase (linkId l) \<mapsto> l)"
  by (simp add: linkMap_def)

lemma linkMap_Some:
  "linkMap links k = Some link \<Longrightarrow> link \<in> set links \<and> toLowerCase (linkId link) = k"
proof (induction links rule: rev_induct)
  case Nil
  then show ?case by (simp add: linkMap_def)
next
  case (snoc l links)
  then show ?case by (auto simp: linkMap_snoc split: if_splits)
qed

lemma linkMap_present:
  "l \<in> set links \<Longrightarrow> \<exists>link. linkMap links (toLowerCase (linkId l)) = Some link"
proof (induction links rule: rev_induct)
  case Nil
  then show ?case by simp
next
  case (snoc x links)
  then show ?case by (auto simp: linkMap_snoc)
qed

lemma linkMap_distinct:
  "distinct (map (\<lambda>l. toLowerCase (linkId l)) links) \<Longrightarrow> l \<in> set links \<Longrightarrow>
   linkMap links (toLowerCase (linkId l)) = Some l"
proof (induction links rule: rev_induct)
  case Nil
  then show ?case by simp
next
  case (snoc x links)
  show ?case
  proof (cases "l = x")
    case True
    then show ?thesis by (simp add: linkMap_snoc)
  next
    case False
    with snoc.prems have l: "l \<in> set links" by simp
    from snoc.prems have "toLowerCase (linkId x) \<notin> (\<lambda>l. toLowerCase (linkId l)) ` set links"
      by simp
    with l have "toLowerCase (linkId l) \<noteq> toLowerCase (linkId x)"
      by (metis imageI)
    moreover from snoc.IH snoc.prems l have "linkMap links (toLowerCase (linkId l)) = Some l"
      by simp
    ultimately show ?thesis by (simp add: linkMap_snoc)
  qed
qed

lemma parse_internal_link:
  assumes tag: "map toUpperChar tag = ''<INTERNALLINK''"
    and ws1: "ws1 \<noteq> []" "\<forall>x \<in> set ws1. isSpace x"
    and attr: "map toUpperChar attr = ''ID=''"
    and q: "q = [] \<or> q = [CHR 0x22] \<or> q = [CHR 0x27]"
    and X: "ident \<noteq> []" "\<forall>x \<in> set ident. isIdChar x"
    and ws2: "\<forall>x \<in> set ws2. isSpace x"
    and links: "links = (case internalLinks d of None \<Rightarrow> [] | Some ls \<Rightarrow> ls)"
  shows "parseInternalLinks d (pre @ (tag @ ws1 @ attr @ q @ ident @ q @ ws2 @ ''/>'') @ post) =
          parseInternalLinks d pre
            @ (case linkMap links (toLowerCase ident) of
                 None \<Rightarrow> brokenLink ident | Some link \<Rightarrow> anchor link)
            @ parseInternalLinks d post"
proof -
  from q have q': "q = [] \<or> (\<exists>ch. q = [ch] \<and> isQuote ch)" by (auto simp: isQuote_def)
  from replace_internal_link [OF tag ws1 attr q' X ws2, of "resolveLink links" pre post]
  show ?thesis
    by (simp add: parseInternalLinks_def links [symmetric] resolveLink_def capture_def Let_def)
qed

lemma parse_unclosed_link:
  assumes "map toUpperChar tag = ''<INTERNALLINK''"
    and "ws1 \<noteq> []" "\<forall>x \<in> set ws1. isSpace x"
    and "map toUpperChar attr = ''ID=''"
    and "q = [] \<or> q = [CHR 0x22] \<or> q = [CHR 0x27]"
    and "ident \<noteq> []" "\<forall>x \<in> set ident. isIdChar x"
    and "\<forall>x \<in> set ws2. isSpace x"
    and "q \<noteq> [] \<or> ws2 \<noteq> [] \<or> last ident \<noteq> CHR ''/''"
    and "CHR ''<'' \<notin> set ident"
  shows "parseInternalLinks d (pre @ (tag @ ws1 @ attr @ q @ ident @ q @ ws2 @ ''>'') @ post) =
          parseInternalLinks d pre @ (tag @ ws1 @ attr @ q @ ident @ q @ ws2 @ ''>'')
            @ parseInternalLinks d post"
  unfolding parseInternalLinks_def Let_def
  by (rule replace_unclosed_link [OF assms])

section \<open>Product schema\<close>

text \<open>
  C8. The product schema builder returns no result exactly when the article carries no
  affiliate link (the field is absent or empty); with a link it returns a product whose
  offer url is the link and whose price is the fixed placeholder "0".
\<close>

theorem product_schema_presence:
  "(generateProductSchema ext a = None) = (\<not> truthy (amazon_link a)) \<and>
   (\<forall>l. amazon_link a = Some l \<and> l \<noteq> [] \<longrightarrow>
      (\<exists>p. generateProductSchema ext a = Some p \<and> offerUrl (offers p) = l
           \<and> price (offers p) = ''0''))"
  by (simp add: generateProductSchema_def Let_def truthy_def)

theorem product_schema_presence_witness:
  "amazon_link (exampleArticle []) = Some ''https://amzn.to/abc'' \<and>
   (\<exists>p. generateProductSchema exampleExternal (exampleArticle []) = Some p
      \<and> offerUrl (offers p) = ''https://amzn.to/abc'' \<and> price (offers p) = ''0'')"
  using product_schema_presence [of exampleExternal "exampleArticle []"]
  by (simp add: exampleArticle_def)

section \<open>Article lookup\<close>















section \<open>FAQ extraction\<close>

text \<open>The example of the specification: two headings, each followed by a paragraph.\<close>

lemma faq_spec_example:
  "generateFAQSchema (exampleArticle ''<h2>Intro</h2><p>hello</p><h2>FAQ</h2><p>ans</p>'') =
     Some [\<lparr> questionName = ''Intro'', answerText = ''hello'' \<rparr>,
           \<lparr> questionName = ''FAQ'', answerText = ''ans'' \<rparr>]"
proof -
  have ma: "matchAll True reHeading ''<h2>Intro</h2><p>hello</p><h2>FAQ</h2><p>ans</p>'' =
      [''<h2>Intro</h2>'', ''<h2>FAQ</h2>'']"
    by (simp add: regex_eval reHeading_def)
  have fl: "faqLoop ''<h2>Intro</h2><p>hello</p><h2>FAQ</h2><p>ans</p>''
      [''<h2>Intro</h2>'', ''<h2>FAQ</h2>''] =
     [\<lparr> questionName = ''Intro'', answerText = ''hello'' \<rparr>,
      \<lparr> questionName = ''FAQ'', answerText = ''ans'' \<rparr>]"
    by (simp only: faq_unfold) (simp add: faq_eval)
  show ?thesis
    by (simp only: generateFAQSchema_def exampleArticle_body Let_def ma fl) simp
qed

lemma faq_intro_example:
  "generateFAQSchema (exampleArticle ''<h2>Intro</h2><p>hello</p>'') =
     Some [\<lparr> questionName = ''Intro'', answerText = ''hello'' \<rparr>]"
proof -
  have ma: "matchAll True reHeading ''<h2>Intro</h2><p>hello</p>'' = [''<h2>Intro</h2>'']"
    by (simp add: regex_eval reHeading_def)
  have fl: "faqLoop ''<h2>Intro</h2><p>hello</p>'' [''<h2>Intro</h2>''] =
      [\<lparr> questionName = ''Intro'', answerText = ''hello'' \<rparr>]"
    by (simp only: faq_unfold) (simp add: faq_eval)
  show ?thesis
    by (simp only: generateFAQSchema_def exampleArticle_body Let_def ma fl) simp
qed

text \<open>
  C3. With two headings of the same text the start of the second answer is looked up with
  \<open>indexOf(headingMatch)\<close>, which finds the first heading again: for the body
  \<open><h2>A</h2>x<h2>A</h2>y\<close> the second answer is "x A y", not the text "y" that follows
  the second heading.
\<close>

theorem faq_duplicate_heading:
  "generateFAQSchema (exampleArticle ''<h2>A</h2>x<h2>A</h2>y'') =
     Some [\<lparr> questionName = ''A'', answerText = ''x'' \<rparr>,
           \<lparr> questionName = ''A'', answerText = ''x A y'' \<rparr>]"
proof -
  have ma: "matchAll True reHeading ''<h2>A</h2>x<h2>A</h2>y'' = [''<h2>A</h2>'', ''<h2>A</h2>'']"
    by (simp add: regex_eval reHeading_def)
  have fl: "faqLoop ''<h2>A</h2>x<h2>A</h2>y'' [''<h2>A</h2>'', ''<h2>A</h2>''] =
     [\<lparr> questionName = ''A'', answerText = ''x'' \<rparr>,
      \<lparr> questionName = ''A'', answerText = ''x A y'' \<rparr>]"
    by (simp only: faq_unfold) (simp add: faq_eval)
  show ?thesis
    by (simp only: generateFAQSchema_def exampleArticle_body Let_def ma fl) simp
qed

section \<open>The content region\<close>

text \<open>
  C9. In the model the steps before the sanitizer are total functions, and the sanitizer is
  the step that can throw. When it throws, the page is still produced, its content region
  is the error placeholder, and every other region is what it is for any other behaviour
  of the sanitizer.
\<close>

theorem content_failure_is_contained:
  "findArticle d requested = Some a \<Longrightarrow>
   sanitizeHtml ext
     (addHeadingClass (addAsteriskToTopPick
        (if isPreformatted a then htmlBody a else parseInternalLinks d (htmlBody a))))
     (sanitizerOptions ext) = Inl e \<Longrightarrow>
   \<exists>p. BlogPostPage ext d requested = Inr p \<and>
       contentRegion p = ErrorBox ''Error loading content'' \<and>
       (\<forall>san. \<exists>q. BlogPostPage (ext \<lparr> sanitizeHtml := san \<rparr>) d requested = Inr q \<and>
                   q \<lparr> contentRegion := contentRegion p \<rparr> = p)"
  by (simp add: BlogPostPage_def renderArticleContent_def generateProductSchema_def Let_def)

theorem content_failure_is_contained_witness:
  "\<exists>p. BlogPostPage failingExternal exampleData ''best-feeder'' = Inr p \<and>
       contentRegion p = ErrorBox ''Error loading content'' \<and>
       faqSchema p = Some [\<lparr> questionName = ''Intro'', answerText = ''hello'' \<rparr>] \<and>
       affiliateBlock p = Some ''https://amzn.to/abc''"
proof -
  let ?a = "exampleArticle ''<h2>Intro</h2><p>hello</p>''"
  have f: "findArticle exampleData ''best-feeder'' = Some ?a"
    by (simp add: findArticle_def exampleData_def exampleArticle_def trim_def char_defs)
  have t: "sanitizeHtml failingExternal
     (addHeadingClass (addAsteriskToTopPick
        (if isPreformatted ?a then htmlBody ?a else parseInternalLinks exampleData (htmlBody ?a))))
     (sanitizerOptions failingExternal) = Inl (Thrown ''parse error'')"
    by (simp add: failingExternal_def)
  from content_failure_is_contained [OF f t] obtain p where
    p: "BlogPostPage failingExternal exampleData ''best-feeder'' = Inr p"
       "contentRegion p = ErrorBox ''Error loading content''"
    by blast
  from p(1) have "faqSchema p = generateFAQSchema ?a"
    by (auto simp add: BlogPostPage_def f)
  moreover from p(1) have "affiliateBlock p = (if truthy (amazon_link ?a) then amazon_link ?a else None)"
    by (auto simp add: BlogPostPage_def f)
  moreover have "amazon_link ?a = Some ''https://amzn.to/abc''"
    by (simp add: exampleArticle_def)
  ultimately show ?thesis using p faq_intro_example by (simp add: truthy_def)
qed

section \<open>The anchor transform and the sanitizer options\<close>

text \<open>
  C5, as stated, fails: an href with the scheme \<open>mailto:\<close> begins with a URL scheme prefix
  and is left as it is, and the relative href \<open>httpd-setup.html\<close> has no scheme and is
  rewritten.
\<close>

theorem anchor_rewrite_counterexample:
  "specBeginsWithUrlScheme ''mailto:nick@example.org'' \<and>
   transformAnchor ''a'' [(''href'', ''mailto:nick@example.org'')] =
     (''a'', [(''href'', ''mailto:nick@example.org'')]) \<and>
   \<not> specBeginsWithUrlScheme ''httpd-setup.html'' \<and>
   transformAnchor ''a'' [(''href'', ''httpd-setup.html'')] =
     (''a'', [(''href'', ''httpd-setup.html''), (''rel'', ''noopener noreferrer nofollow''),
             (''target'', ''_blank'')])"
  by (simp add: specBeginsWithUrlScheme_def isAlpha_def isSchemeChar_def transformAnchor_def
      truthy_def startsWith_def setProp_def)

text \<open>
  C5, amended. The transform that the options register for \<open>a\<close> rewrites exactly the anchors
  whose href is non-empty and begins with the characters \<open>http\<close>: the result is an \<open>a\<close>
  with rel "noopener noreferrer nofollow" and target "_blank" and every other attribute
  unchanged; any other anchor is returned as it is. Both attributes are on the attribute
  allow-list of \<open>a\<close>.
\<close>

theorem anchor_rewrite_http_prefix:
  "(truthy (map_of attrs ''href'') \<and> startsWith (the (map_of attrs ''href'')) ''http'' \<longrightarrow>
      (\<exists>attrs'. transformAnchor tag attrs = (''a'', attrs') \<and>
         map_of attrs' ''rel'' = Some ''noopener noreferrer nofollow'' \<and>
         map_of attrs' ''target'' = Some ''_blank'' \<and>
         (\<forall>k. k \<noteq> ''rel'' \<and> k \<noteq> ''target'' \<longrightarrow> map_of attrs' k = map_of attrs k))) \<and>
   (\<not> (truthy (map_of attrs ''href'') \<and> startsWith (the (map_of attrs ''href'')) ''http'') \<longrightarrow>
      transformAnchor tag attrs = (tag, attrs)) \<and>
   transformTags (sanitizerOptions ext) = [(''a'', transformAnchor)] \<and>
   map_of (allowedAttributes (sanitizerOptions ext)) ''a'' =
     Some [''href'', ''name'', ''target'', ''class'', ''rel'']"
proof -
  have hit: "\<exists>attrs'. transformAnchor tag attrs = (''a'', attrs') \<and>
         map_of attrs' ''rel'' = Some ''noopener noreferrer nofollow'' \<and>
         map_of attrs' ''target'' = Some ''_blank'' \<and>
         (\<forall>k. k \<noteq> ''rel'' \<and> k \<noteq> ''target'' \<longrightarrow> map_of attrs' k = map_of attrs k)"
    if "truthy (map_of attrs ''href'') \<and> startsWith (the (map_of attrs ''href'')) ''http''"
    using that by (simp add: transformAnchor_def map_of_setProp)
  have miss: "transformAnchor tag attrs = (tag, attrs)"
    if "\<not> (truthy (map_of attrs ''href'') \<and> startsWith (the (map_of attrs ''href'')) ''http'')"
    using that unfolding transformAnchor_def by (simp only: if_False)
  have opts: "transformTags (sanitizerOptions ext) = [(''a'', transformAnchor)]"
    by (simp add: sanitizerOptions_def)
  have allowed: "map_of (allowedAttributes (sanitizerOptions ext)) ''a'' =
      Some [''href'', ''name'', ''target'', ''class'', ''rel'']"
    by (simp add: sanitizerOptions_def addedAttributes_def map_of_setProp)
  from hit miss opts allowed show ?thesis by blast
qed

theorem anchor_rewrite_http_prefix_witness:
  "(\<exists>attrs'. transformAnchor ''a'' [(''href'', ''https://example.org/'')] = (''a'', attrs') \<and>
      map_of attrs' ''rel'' = Some ''noopener noreferrer nofollow'' \<and>
      map_of attrs' ''target'' = Some ''_blank'' \<and>
      map_of attrs' ''href'' = Some ''https://example.org/'') \<and>
   transformAnchor ''a'' [(''href'', ''/about'')] = (''a'', [(''href'', ''/about'')])"
proof -
  have h: "truthy (map_of [(''href'', ''https://example.org/'')] ''href'') \<and>
      startsWith (the (map_of [(''href'', ''https://example.org/'')] ''href'')) ''http''"
    by (simp add: truthy_def startsWith_def)
  have n: "\<not> (truthy (map_of [(''href'', ''/about'')] ''href'') \<and>
      startsWith (the (map_of [(''href'', ''/about'')] ''href'')) ''http'')"
    by (simp add: truthy_def startsWith_def)
  from h anchor_rewrite_http_prefix [of "[(''href'', ''https://example.org/'')]" "''a''" exampleExternal]
  obtain attrs' where a: "transformAnchor ''a'' [(''href'', ''https://example.org/'')] = (''a'', attrs')"
      "map_of attrs' ''rel'' = Some ''noopener noreferrer nofollow''"
      "map_of attrs' ''target'' = Some ''_blank''"
      "\<forall>k. k \<noteq> ''rel'' \<and> k \<noteq> ''target'' \<longrightarrow>
           map_of attrs' k = map_of [(''href'', ''https://example.org/'')] k"
    by blast
  from a(4) have "map_of attrs' ''href'' = Some ''https://example.org/''" by simp
  moreover from n anchor_rewrite_http_prefix [of "[(''href'', ''/about'')]" "''a''" exampleExternal]
  have "transformAnchor ''a'' [(''href'', ''/about'')] = (''a'', [(''href'', ''/about'')])"
    by blast
  ultimately show ?thesis using a by blast
qed

text \<open>
  C6. The options name the two hostnames as the only iframe hosts and give \<open>iframe\<close> its
  five attributes, but the tag list is the default list of the package followed by
  img, svg, path, line, rect, circle, g, text and tspan: \<open>iframe\<close> is on the tag allow-list
  only if the package's default list has it.
\<close>

theorem iframe_tag_not_added:
  "''iframe'' \<notin> set addedTags \<and>
   (''iframe'' \<in> set (allowedTags (sanitizerOptions ext))) =
     (''iframe'' \<in> set (defaults_allowedTags ext)) \<and>
   allowedIframeHostnames (sanitizerOptions ext) = [''www.youtube.com'', ''player.vimeo.com''] \<and>
   map_of (allowedAttributes (sanitizerOptions ext)) ''iframe'' =
     Some [''src'', ''width'', ''height'', ''frameborder'', ''allowfullscreen'']"
  by (simp add: sanitizerOptions_def addedTags_def addedAttributes_def map_of_setProp)

section \<open>Internal links\<close>

text \<open>
  C2, as stated, fails: a placeholder without the closing slash is not matched by the
  pattern, which ends in \<open>\/>\<close>, and stays in the output as it is.
\<close>

theorem internal_link_without_slash_counterexample:
  \<open>parseInternalLinks exampleData ''<p><InternalLink id="about"></p>'' = ''<p><InternalLink id="about"></p>''\<close>
  by (simp add: parseInternalLinks_def exampleData_def regex_eval reInternalLink_def)

text \<open>
  C2, amended. Take a placeholder whose id is not empty and holds no quote, white space or
  \<open>>\<close>, with the id in double quotes, single quotes or unquoted, the tag and the
  attribute name in any letter case, white space before \<open>id\<close> and optionally before the
  end. When it ends in \<open>/>\<close>, it is replaced, wherever it stands in the body: by the
  anchor when the lower-cased id is in the table, and otherwise by the broken-link marker
  that holds the id as written. When it ends in \<open>>\<close> without the slash (the id without
  \<open><\<close>, and not an unquoted id that ends in \<open>/\<close> right before the \<open>>\<close>), it is left in
  the text as it is. In both cases the text before it and the text behind it are resolved
  as they are on their own. The resolver is a total function: it has no failing case.
\<close>

theorem internal_link_placeholder_is_replaced:
  assumes "map toUpperChar tag = ''<INTERNALLINK''"
    and "ws1 \<noteq> []" and "\<forall>x \<in> set ws1. isSpace x"
    and "map toUpperChar attr = ''ID=''"
    and "q = [] \<or> q = [CHR 0x22] \<or> q = [CHR 0x27]"
    and "ident \<noteq> []" and "\<forall>x \<in> set ident. isIdChar x"
    and "\<forall>x \<in> set ws2. isSpace x"
  shows \<open>parseInternalLinks d (pre @ (tag @ ws1 @ attr @ q @ ident @ q @ ws2 @ ''/>'') @ post) =
      parseInternalLinks d pre
        @ (case linkMap (case internalLinks d of None \<Rightarrow> [] | Some ls \<Rightarrow> ls) (toLowerCase ident) of
             None \<Rightarrow> ''<span class="broken-link">[Broken Link: '' @ ident @ '']</span>''
           | Some link \<Rightarrow>
               ''<a href="'' @ linkUrl link @ ''" class="internal-link">'' @ linkText link @ ''</a>'')
        @ parseInternalLinks d post \<and>
     ((q \<noteq> [] \<or> ws2 \<noteq> [] \<or> last ident \<noteq> CHR ''/'') \<and> CHR ''<'' \<notin> set ident \<longrightarrow>
        parseInternalLinks d (pre @ (tag @ ws1 @ attr @ q @ ident @ q @ ws2 @ ''>'') @ post) =
          parseInternalLinks d pre @ (tag @ ws1 @ attr @ q @ ident @ q @ ws2 @ ''>'')
            @ parseInternalLinks d post)\<close>
proof (intro conjI impI)
  show \<open>parseInternalLinks d (pre @ (tag @ ws1 @ attr @ q @ ident @ q @ ws2 @ ''/>'') @ post) =
      parseInternalLinks d pre
        @ (case linkMap (case internalLinks d of None \<Rightarrow> [] | Some ls \<Rightarrow> ls) (toLowerCase ident) of
             None \<Rightarrow> ''<span class="broken-link">[Broken Link: '' @ ident @ '']</span>''
           | Some link \<Rightarrow>
               ''<a href="'' @ linkUrl link @ ''" class="internal-link">'' @ linkText link @ ''</a>'')
        @ parseInternalLinks d post\<close>
    using parse_internal_link [OF assms refl, of d pre post]
    unfolding anchor_def brokenLink_def .
next
  assume a: "(q \<noteq> [] \<or> ws2 \<noteq> [] \<or> last ident \<noteq> CHR ''/'') \<and> CHR ''<'' \<notin> set ident"
  then have "q \<noteq> [] \<or> ws2 \<noteq> [] \<or> last ident \<noteq> CHR ''/''" and "CHR ''<'' \<notin> set ident"
    by blast+
  then show "parseInternalLinks d (pre @ (tag @ ws1 @ attr @ q @ ident @ q @ ws2 @ ''>'') @ post) =
      parseInternalLinks d pre @ (tag @ ws1 @ attr @ q @ ident @ q @ ws2 @ ''>'')
        @ parseInternalLinks d post"
    by (rule parse_unclosed_link [OF assms])
qed

theorem internal_link_placeholder_is_replaced_witness:
  \<open>parseInternalLinks exampleData ''<p><internallink  ID='nope' /></p>'' =
      ''<p><span class="broken-link">[Broken Link: nope]</span></p>'' \<and>
   parseInternalLinks exampleData ''<p><internallink  ID='nope' ></p>'' =
      ''<p><internallink  ID='nope' ></p>''\<close>
proof -
  have shape: "map toUpperChar ''<internallink'' = ''<INTERNALLINK''"
    "''  '' \<noteq> []" "\<forall>x \<in> set ''  ''. isSpace x"
    "map toUpperChar ''ID='' = ''ID=''"
    "[CHR 0x27] = [] \<or> [CHR 0x27] = [CHR 0x22] \<or> [CHR 0x27] = [CHR 0x27]"
    "''nope'' \<noteq> []" "\<forall>x \<in> set ''nope''. isIdChar x"
    "\<forall>x \<in> set '' ''. isSpace x"
    by (simp_all add: char_defs)
  have open_end: "([CHR 0x27] \<noteq> [] \<or> '' '' \<noteq> [] \<or> last ''nope'' \<noteq> CHR ''/'') \<and>
      CHR ''<'' \<notin> set ''nope''"
    by simp
  have miss: "linkMap (case internalLinks exampleData of None \<Rightarrow> [] | Some ls \<Rightarrow> ls)
      (toLowerCase ''nope'') = None"
    by (simp add: exampleData_def aboutLink_def linkMap_def char_defs)
  have pre: "parseInternalLinks exampleData ''<p>'' = ''<p>''"
    by (simp add: parseInternalLinks_def regex_eval reInternalLink_def)
  have post: "parseInternalLinks exampleData ''</p>'' = ''</p>''"
    by (simp add: parseInternalLinks_def regex_eval reInternalLink_def)
  from internal_link_placeholder_is_replaced [OF shape, of exampleData "''<p>''" "''</p>''"] open_end
  show ?thesis unfolding miss pre post by simp
qed

text \<open>
  C1, as stated, fails: the id \<open>About\<close> is in the link table, and a placeholder that
  refers to it and ends without the slash is left as it is; the output holds no anchor.
\<close>

theorem internal_link_table_id_counterexample:
  \<open>linkMap [aboutLink] (toLowerCase ''About'') = Some aboutLink \<and>
   parseInternalLinks exampleData ''See <InternalLink id='About'> now'' =
     ''See <InternalLink id='About'> now'' \<and>
   \<not> includesStr (parseInternalLinks exampleData ''See <InternalLink id='About'> now'') ''<a ''\<close>
  by (simp add: parseInternalLinks_def exampleData_def regex_eval reInternalLink_def
      linkMap_def aboutLink_def char_defs includesStr_def startsWith_def)

text \<open>
  C1, amended. A placeholder that ends in \<open>/>\<close> and whose id is in the link table,
  whatever the letter case of the id, of the tag name and of the attribute name, with the
  id not empty and free of quotes, white space and \<open>>\<close>, in double quotes, single quotes
  or unquoted: wherever it stands in the body, it is replaced by the anchor whose href is
  the url and whose text is the text of the table's entry for the lower-cased id, with the
  class \<open>internal-link\<close>, between the resolved text before it and the resolved text behind
  it. The entry is the one the map holds for the lower-cased id (the last one of the list
  with this key), which is the entry itself when the keys are distinct. The witness is the
  example of the specification.
\<close>

theorem internal_link_resolves_to_anchor:
  assumes "map toUpperChar tag = ''<INTERNALLINK''"
    and "ws1 \<noteq> []" and "\<forall>x \<in> set ws1. isSpace x"
    and "map toUpperChar attr = ''ID=''"
    and "q = [] \<or> q = [CHR 0x22] \<or> q = [CHR 0x27]"
    and "ident \<noteq> []" and "\<forall>x \<in> set ident. isIdChar x"
    and "\<forall>x \<in> set ws2. isSpace x"
    and "internalLinks d = Some links"
    and "l \<in> set links" and "toLowerCase (linkId l) = toLowerCase ident"
  shows \<open>\<exists>link.
      parseInternalLinks d (pre @ (tag @ ws1 @ attr @ q @ ident @ q @ ws2 @ ''/>'') @ post) =
        parseInternalLinks d pre
          @ (''<a href="'' @ linkUrl link @ ''" class="internal-link">'' @ linkText link @ ''</a>'')
          @ parseInternalLinks d post \<and>
      linkMap links (toLowerCase ident) = Some link \<and>
      link \<in> set links \<and> toLowerCase (linkId link) = toLowerCase ident \<and>
      (distinct (map (\<lambda>l. toLowerCase (linkId l)) links) \<longrightarrow> link = l)\<close>
proof -
  from linkMap_present [OF assms(10)] assms(11) obtain link where
    link: "linkMap links (toLowerCase ident) = Some link" by auto
  from linkMap_Some [OF link] have mem: "link \<in> set links"
    "toLowerCase (linkId link) = toLowerCase ident" by simp_all
  have uniq: "link = l" if "distinct (map (\<lambda>l. toLowerCase (linkId l)) links)"
    using linkMap_distinct [OF that assms(10)] assms(11) link by simp
  have "links = (case internalLinks d of None \<Rightarrow> [] | Some ls \<Rightarrow> ls)"
    using assms(9) by simp
  from parse_internal_link [OF assms(1-8) this, of pre post] link have
    "parseInternalLinks d (pre @ (tag @ ws1 @ attr @ q @ ident @ q @ ws2 @ ''/>'') @ post) =
      parseInternalLinks d pre @ anchor link @ parseInternalLinks d post"
    by simp
  with link mem uniq show ?thesis unfolding anchor_def by blast
qed

theorem internal_link_resolves_to_anchor_witness:
  \<open>parseInternalLinks exampleData ''<p>See <InternalLink id="about"/></p>'' =
      ''<p>See <a href="/about" class="internal-link">About Us</a></p>''\<close>
proof -
  have shape: "map toUpperChar ''<InternalLink'' = ''<INTERNALLINK''"
    "'' '' \<noteq> []" "\<forall>x \<in> set '' ''. isSpace x"
    "map toUpperChar ''id='' = ''ID=''"
    "[CHR 0x22] = [] \<or> [CHR 0x22] = [CHR 0x22] \<or> [CHR 0x22] = [CHR 0x27]"
    "''about'' \<noteq> []" "\<forall>x \<in> set ''about''. isIdChar x"
    "\<forall>x \<in> set []. isSpace x"
    by (simp_all add: char_defs)
  have table: "internalLinks exampleData = Some [aboutLink]" "aboutLink \<in> set [aboutLink]"
    "toLowerCase (linkId aboutLink) = toLowerCase ''about''"
    by (simp_all add: exampleData_def aboutLink_def char_defs)
  have pre: "parseInternalLinks exampleData ''<p>See '' = ''<p>See ''"
    by (simp add: parseInternalLinks_def regex_eval reInternalLink_def)
  have post: "parseInternalLinks exampleData ''</p>'' = ''</p>''"
    by (simp add: parseInternalLinks_def regex_eval reInternalLink_def)
  from internal_link_resolves_to_anchor [OF shape table, of "''<p>See ''" "''</p>''"]
  obtain link where
    \<open>parseInternalLinks exampleData
       (''<p>See '' @ (''<InternalLink'' @ '' '' @ ''id='' @ [CHR 0x22] @ ''about'' @ [CHR 0x22] @ [] @ ''/>'')
          @ ''</p>'') =
     parseInternalLinks exampleData ''<p>See ''
       @ (''<a href="'' @ linkUrl link @ ''" class="internal-link">'' @ linkText link @ ''</a>'')
       @ parseInternalLinks exampleData ''</p>''\<close>
    and "link \<in> set [aboutLink]"
    by blast
  then show ?thesis unfolding pre post by (auto simp: aboutLink_def)
qed

section \<open>Heading decoration\<close>

text \<open>
  What the decorator does with an \<open>h2\<close> opening tag (any letter case) whose attribute text
  is empty or begins with white space and holds no \<open>>\<close>, and which does not stand inside
  an unfinished tag (the text before it has no \<open><\<close> after its last \<open>>\<close>): the tag becomes
  \<open><h2\<close>, the attribute text as it was, and the declaration \<open>class="blog-heading"\<close>; the
  text before the tag and the text behind it are decorated as they are on their own.
\<close>

lemma heading_tag_decorated:
  assumes "map toUpperChar tag = ''<H2''"
    and "attrs = [] \<or> isSpace (hd attrs)" and "CHR ''>'' \<notin> set attrs"
    and "pre1 = [] \<or> last pre1 = CHR ''>''" and "CHR ''<'' \<notin> set pre2"
  shows \<open>addHeadingClass (pre1 @ pre2 @ (tag @ attrs @ ''>'') @ post) =
      addHeadingClass (pre1 @ pre2) @ (''<h2'' @ attrs @ '' class="blog-heading">'')
        @ addHeadingClass post\<close>
  unfolding addHeadingClass_def
  by (rule replace_h2_open [OF assms]) simp

lemma heading_tag_decorated_example:
  \<open>addHeadingClass ''<p>x</p>then <H2 id="top">Title</h2>'' =
      ''<p>x</p>then <h2 id="top" class="blog-heading">Title</h2>''\<close>
proof -
  have shape: "map toUpperChar ''<H2'' = ''<H2''"
    \<open>'' id="top"'' = [] \<or> isSpace (hd '' id="top"'')\<close> \<open>CHR ''>'' \<notin> set '' id="top"''\<close>
    "''<p>x</p>'' = [] \<or> last ''<p>x</p>'' = CHR ''>''" "CHR ''<'' \<notin> set ''then ''"
    by (simp_all add: char_defs)
  have pre: "addHeadingClass (''<p>x</p>'' @ ''then '') = ''<p>x</p>then ''"
    by (simp add: addHeadingClass_def regex_eval reH2Open_def)
  have post: "addHeadingClass ''Title</h2>'' = ''Title</h2>''"
    by (simp add: addHeadingClass_def regex_eval reH2Open_def)
  from heading_tag_decorated [OF shape, of "''Title</h2>''"]
  show ?thesis unfolding pre post by simp
qed

text \<open>
  C7. The declaration \<open>class="blog-heading"\<close> is written behind whatever the tag holds. A
  heading that has a class attribute does not get the token added to it: the tag ends
  with two class attributes, the one it had and the new one, where the claim has a single
  class attribute with both tokens.
\<close>

theorem heading_class_duplicated:
  \<open>addHeadingClass ''<h2 class="intro">Title</h2>'' = ''<h2 class="intro" class="blog-heading">Title</h2>'' \<and>
   occurrences ''class='' (addHeadingClass ''<h2 class="intro">Title</h2>'') = 2\<close>
  by (simp add: addHeadingClass_def regex_eval reH2Open_def startsWith_def)

end
